theory Spec2Isabelle
  imports Complex_Main "HOL-Library.Word"
begin

section \<open>The slab daemon: sample store and Mann-Kendall engine\<close>

text \<open>
  A shallow embedding of \<open>monitor\<close>, \<open>searchSLAB\<close>, \<open>searchBucket\<close> and the loop of
  \<open>main\<close> in \<open>slabDaemon.c\<close>.  Most of it is the body of the loop of \<open>monitor\<close>: what the
  daemon does for one slab cache in one cycle.  The three horizons are the whole run, the
  last \<open>MID_TERM\<close> seconds and the last \<open>SHORT_TERM\<close> seconds.

  Conventions of the embedding.
  \<^item> The linked list \<open>sValues\<close> is a HOL list, newest sample first; the C field
    \<open>next\<close> leads to the tail of the list (older samples), \<open>prev\<close> towards its head.
  \<^item> Nodes are never freed and only ever added at the head, so a pointer into the series
    (\<open>lastMID_TERM\<close>, \<open>lastSHORT_TERM\<close>) is the creation index of its node, counted from
    the oldest sample, or \<open>None\<close> for \<open>NULL\<close>.  The \<open>prev\<close> link of node \<open>k\<close> is
    \<open>NULL\<close> until node \<open>k + 1\<close> has been linked in.
  \<^item> A bucket list is a HOL list in the order of the C list; \<open>searchBucket\<close> returns the
    position of the bucket it found.
  \<^item> Dereferencing \<open>NULL\<close> is the error value \<open>NullDereference\<close>.
  \<^item> Time stamps and sample values are C doubles that only ever hold integers (an
    \<open>int\<close>, and the product of two \<open>unsigned\<close>), so they are integers here.
  \<^item> The accumulators \<open>accum*\<close> and the products of the tie term of the variance are
    C \<open>int\<close> values; their arithmetic wraps at 32 bits here (\<open>int32\<close>), the usual result
    of the overflow.  A series of 65537 samples, or a bucket with 1024 ties, is enough to
    leave that range.  The counters are \<open>long\<close> and the tie counts grow by one per
    sample: they leave their ranges only after more than a million, resp. \<open>2 ^ 31\<close>,
    samples of one cache, which the quadratic scan of every cycle puts out of reach; they
    are unbounded integers here.
  \<^item> The variances and Z scores are doubles.  A finite double is a real number here
    (rounding is not modelled); what C computes for a division by zero and for the root
    of a negative number is modelled by the values \<open>PInf\<close>, \<open>NInf\<close> and \<open>NaN\<close>.
\<close>

subsection \<open>Data\<close>

definition MID_TERM :: int where
  "MID_TERM = 3600"

definition SHORT_TERM :: int where
  "SHORT_TERM = 900"

definition criticalValue :: real where
  "criticalValue = 196 / 100"

record s =
  timestamp :: int
  val :: int

record slab_buckets =
  bvalue :: int
  tied :: int

record slab_MK =
  name :: string
  sValues :: "s list"
  lastMID_TERM :: "nat option"
  lastSHORT_TERM :: "nat option"
  tiedbucketsTotal :: "slab_buckets list"
  tiedbucketsMID_TERM :: "slab_buckets list"
  tiedbucketsSHORT_TERM :: "slab_buckets list"

text \<open>
  Modelled from the spec: \<open>struct slab_info\<close> is declared in \<open>proc/slab.h\<close>, which is
  not part of the source.  The sample source supplies a name, an unsigned object size
  and an unsigned count of active objects; \<open>monitor\<close> prints both with \<open>%6u\<close>.
\<close>

record slab_info =
  info_name :: string
  nr_active_objs :: "32 word"
  obj_size :: "32 word"

datatype error = NullDereference

datatype double = Fin real | PInf | NInf | NaN

definition int32 :: "int \<Rightarrow> int" where
  "int32 x = (x + 2147483648) mod 4294967296 - 2147483648"

subsection \<open>Pointers into the series\<close>

definition node_at :: "s list \<Rightarrow> nat \<Rightarrow> s option" where
  "node_at xs k = (if k < length xs then Some (xs ! (length xs - 1 - k)) else None)"

definition prev_of :: "s list \<Rightarrow> nat \<Rightarrow> nat option" where
  "prev_of xs k = (if Suc k < length xs then Some (Suc k) else None)"

subsection \<open>Tie buckets\<close>

fun searchBucket :: "slab_buckets list \<Rightarrow> int \<Rightarrow> nat option" where
  "searchBucket [] v = None"
| "searchBucket (b # bs) v =
     (if v = bvalue b then Some 0 else map_option Suc (searchBucket bs v))"

text \<open>Lines 300-302: \<open>if (bucket) bucket->tied -= 1\<close>.\<close>

definition decrement :: "slab_buckets list \<Rightarrow> nat option \<Rightarrow> slab_buckets list" where
  "decrement bs p =
     (case p of
        None \<Rightarrow> bs
      | Some i \<Rightarrow> bs[i := (bs ! i)\<lparr>tied := tied (bs ! i) - 1\<rparr>])"

text \<open>Lines 322-331: increment the bucket found, or put a new bucket in front.\<close>

definition count_in :: "slab_buckets list \<Rightarrow> int \<Rightarrow> slab_buckets list" where
  "count_in bs v =
     (case searchBucket bs v of
        Some i \<Rightarrow> bs[i := (bs ! i)\<lparr>tied := tied (bs ! i) + 1\<rparr>]
      | None \<Rightarrow> \<lparr>bvalue = v, tied = 1\<rparr> # bs)"

subsection \<open>Retention\<close>

text \<open>The value stored for a cache: \<open>nr_active_objs * obj_size\<close>, an \<open>unsigned\<close> product.\<close>

definition sample_value :: "slab_info \<Rightarrow> int" where
  "sample_value info = uint (nr_active_objs info * obj_size info)"

text \<open>Lines 266-293: the first sample of a cache.\<close>

definition first_sample :: "string \<Rightarrow> int \<Rightarrow> int \<Rightarrow> slab_MK" where
  "first_sample nm t v =
     \<lparr>name = nm,
      sValues = [\<lparr>timestamp = t, val = v\<rparr>],
      lastMID_TERM = Some 0,
      lastSHORT_TERM = Some 0,
      tiedbucketsTotal = [\<lparr>bvalue = v, tied = 1\<rparr>],
      tiedbucketsMID_TERM = [\<lparr>bvalue = v, tied = 1\<rparr>],
      tiedbucketsSHORT_TERM = [\<lparr>bvalue = v, tied = 1\<rparr>]\<rparr>"

text \<open>
  Lines 297-304 and 305-311: one test of the boundary node against the window, with
  the series as it is before the new node is linked in.
\<close>

definition clean ::
  "int \<Rightarrow> int \<Rightarrow> s list \<Rightarrow> nat option \<Rightarrow> slab_buckets list
     \<Rightarrow> error + (nat option \<times> slab_buckets list)" where
  "clean t window xs boundary bs =
     (case boundary of
        None \<Rightarrow> Inl NullDereference
      | Some k \<Rightarrow>
          (case node_at xs k of
             None \<Rightarrow> Inl NullDereference
           | Some nd \<Rightarrow>
               if t - window > timestamp nd
               then Inr (prev_of xs k, decrement bs (searchBucket bs (val nd)))
               else Inr (boundary, bs)))"

text \<open>Lines 296-354: a further sample of a known cache.\<close>

definition subsequent_sample :: "int \<Rightarrow> int \<Rightarrow> slab_MK \<Rightarrow> error + slab_MK" where
  "subsequent_sample t v mk =
     (case clean t MID_TERM (sValues mk) (lastMID_TERM mk) (tiedbucketsMID_TERM mk) of
        Inl e \<Rightarrow> Inl e
      | Inr (lm, bm) \<Rightarrow>
          (case clean t SHORT_TERM (sValues mk) (lastSHORT_TERM mk)
                  (tiedbucketsSHORT_TERM mk) of
             Inl e \<Rightarrow> Inl e
           | Inr (ls, bsh) \<Rightarrow>
               Inr (mk\<lparr>sValues := \<lparr>timestamp = t, val = v\<rparr> # sValues mk,
                       lastMID_TERM := lm,
                       lastSHORT_TERM := ls,
                       tiedbucketsTotal := count_in (tiedbucketsTotal mk) v,
                       tiedbucketsMID_TERM := count_in bm v,
                       tiedbucketsSHORT_TERM := count_in bsh v\<rparr>)))"

text \<open>
  Lines 264-356: \<open>found\<close> is what \<open>searchSLAB\<close> returned for the name of the cache.
\<close>

definition retention :: "int \<Rightarrow> slab_info \<Rightarrow> slab_MK option \<Rightarrow> error + slab_MK" where
  "retention t info found =
     (case found of
        None \<Rightarrow> Inr (first_sample (info_name info) t (sample_value info))
      | Some mk \<Rightarrow> subsequent_sample t (sample_value info) mk)"

text \<open>
  The samples one cache receives over the cycles in which it is reported, oldest first,
  each with the time stamp of its cycle.
\<close>

fun feed :: "slab_MK \<Rightarrow> (int \<times> int) list \<Rightarrow> error + slab_MK" where
  "feed mk [] = Inr mk"
| "feed mk ((t, v) # rest) =
     (case subsequent_sample t v mk of
        Inl e \<Rightarrow> Inl e
      | Inr mk' \<Rightarrow> feed mk' rest)"

text \<open>
  \<open>main\<close> calls \<open>monitor (i * delay)\<close> for \<open>i = 0, 1, ...\<close>: a cache reported in every
  cycle from the one at time \<open>t\<close> on receives its values at \<open>t\<close>, \<open>t + delay\<close>, ...
  (\<open>main_loop_every_cycle\<close> below relates \<open>every_cycle\<close> to the loop of \<open>main\<close>, for
  time stamps that fit an \<open>int\<close>.)
\<close>

fun paced :: "int \<Rightarrow> int \<Rightarrow> int list \<Rightarrow> (int \<times> int) list" where
  "paced t delay [] = []"
| "paced t delay (v # vs) = (t, v) # paced (t + delay) delay vs"

definition every_cycle :: "string \<Rightarrow> int \<Rightarrow> int \<Rightarrow> int \<Rightarrow> int list \<Rightarrow> error + slab_MK" where
  "every_cycle nm t delay v vs = feed (first_sample nm t v) (paced (t + delay) delay vs)"

subsection \<open>The pairwise scan\<close>

record scan =
  accumTotal :: int
  accumMID_TERM :: int
  accumSHORT_TERM :: int
  counterTotal :: int
  counterMID_TERM :: int
  counterSHORT_TERM :: int

definition scan0 :: scan where
  "scan0 = \<lparr>accumTotal = 0, accumMID_TERM = 0, accumSHORT_TERM = 0,
            counterTotal = 0, counterMID_TERM = 0, counterSHORT_TERM = 0\<rparr>"

text \<open>Lines 378-394: one pair, \<open>actualS\<close> the newer node and \<open>actual\<close> an older one.\<close>

definition pair_step :: "int \<Rightarrow> s \<Rightarrow> s \<Rightarrow> scan \<Rightarrow> scan" where
  "pair_step t actualS actual st =
     (let inMID = (timestamp actualS \<ge> t - MID_TERM \<and> timestamp actual \<ge> t - MID_TERM);
          inSHORT = (timestamp actualS \<ge> t - SHORT_TERM \<and> timestamp actual \<ge> t - SHORT_TERM)
      in if val actualS > val actual then
           st\<lparr>accumMID_TERM := (if inMID then int32 (accumMID_TERM st + 1) else accumMID_TERM st),
              accumSHORT_TERM := (if inSHORT then int32 (accumSHORT_TERM st + 1) else accumSHORT_TERM st),
              accumTotal := int32 (accumTotal st + 1)\<rparr>
         else if val actualS < val actual then
           st\<lparr>accumTotal := int32 (accumTotal st - 1),
              accumMID_TERM := (if inMID then int32 (accumMID_TERM st - 1) else accumMID_TERM st),
              accumSHORT_TERM := (if inSHORT then int32 (accumSHORT_TERM st - 1) else accumSHORT_TERM st)\<rparr>
         else st)"

text \<open>Lines 377-396: the inner loop.\<close>

fun inner_loop :: "int \<Rightarrow> s \<Rightarrow> s list \<Rightarrow> scan \<Rightarrow> scan" where
  "inner_loop t actualS [] st = st"
| "inner_loop t actualS (actual # rest) st =
     inner_loop t actualS rest (pair_step t actualS actual st)"

text \<open>Lines 397-403: the counters.\<close>

definition count_step :: "int \<Rightarrow> s \<Rightarrow> scan \<Rightarrow> scan" where
  "count_step t actualS st =
     st\<lparr>counterTotal := counterTotal st + 1,
        counterMID_TERM :=
          (if timestamp actualS \<ge> t - MID_TERM then counterMID_TERM st + 1
           else counterMID_TERM st),
        counterSHORT_TERM :=
          (if timestamp actualS \<ge> t - SHORT_TERM then counterSHORT_TERM st + 1
           else counterSHORT_TERM st)\<rparr>"

text \<open>Lines 374-405: the outer loop.\<close>

fun outer_loop :: "int \<Rightarrow> s list \<Rightarrow> scan \<Rightarrow> scan" where
  "outer_loop t [] st = st"
| "outer_loop t (actualS # rest) st =
     outer_loop t rest (count_step t actualS (inner_loop t actualS rest st))"

subsection \<open>Variance, Z score and decision\<close>

text \<open>Lines 408-416: the tie term, each product computed in \<open>int\<close>.\<close>

fun secondPartVariance :: "slab_buckets list \<Rightarrow> int" where
  "secondPartVariance [] = 0"
| "secondPartVariance (b # bs) =
     (if tied b > 1 then int32 (tied b * (tied b - 1) * (2 * tied b + 5)) else 0)
       + secondPartVariance bs"

text \<open>Line 437: computed in \<open>long\<close>.\<close>

definition firstPartVariance :: "int \<Rightarrow> int" where
  "firstPartVariance counter =
     (if counter > 1 then counter * (counter - 1) * (2 * counter + 5) else 0)"

text \<open>Line 438; the variable keeps its initial \<open>0.0\<close> when the counter is at most 1.\<close>

definition varS :: "int \<Rightarrow> slab_buckets list \<Rightarrow> real" where
  "varS counter bs =
     (if counter > 1
      then (real_of_int (firstPartVariance counter) - real_of_int (secondPartVariance bs)) / 18
      else 0)"

fun d_sqrt :: "real \<Rightarrow> double" where
  "d_sqrt x = (if x < 0 then NaN else Fin (sqrt x))"

fun d_div :: "real \<Rightarrow> double \<Rightarrow> double" where
  "d_div a (Fin b) =
     (if b = 0 then (if a = 0 then NaN else if a > 0 then PInf else NInf) else Fin (a / b))"
| "d_div a PInf = Fin 0"
| "d_div a NInf = Fin 0"
| "d_div a NaN = NaN"

fun fabs :: "double \<Rightarrow> double" where
  "fabs (Fin x) = Fin \<bar>x\<bar>"
| "fabs PInf = PInf"
| "fabs NInf = PInf"
| "fabs NaN = NaN"

fun d_gt :: "double \<Rightarrow> real \<Rightarrow> bool" where
  "d_gt (Fin x) c = (x > c)"
| "d_gt PInf c = True"
| "d_gt NInf c = False"
| "d_gt NaN c = False"

fun d_lt :: "double \<Rightarrow> real \<Rightarrow> bool" where
  "d_lt (Fin x) c = (x < c)"
| "d_lt PInf c = False"
| "d_lt NInf c = True"
| "d_lt NaN c = False"

text \<open>Lines 436-444: the Z score; the variable keeps its initial \<open>0.0\<close> otherwise.\<close>

definition zscore :: "int \<Rightarrow> int \<Rightarrow> slab_buckets list \<Rightarrow> double" where
  "zscore counter accum bs =
     (if counter > 1 then
        (if accum < 0 then d_div (real_of_int (accum + 1)) (d_sqrt (varS counter bs))
         else if accum > 0 then d_div (real_of_int (accum - 1)) (d_sqrt (varS counter bs))
         else Fin 0)
      else Fin 0)"

text \<open>Lines 445-453: the flag.\<close>

definition trend :: "double \<Rightarrow> string" where
  "trend z =
     (if d_gt (fabs z) criticalValue
      then (if d_gt z 0 then ''YES'' else ''NO'')
      else ''NO'')"

text \<open>What is logged for one horizon.\<close>

record horizon =
  S_stat :: int
  n_count :: int
  variance :: real
  Z :: double
  flag :: string

definition horizon_of :: "int \<Rightarrow> int \<Rightarrow> slab_buckets list \<Rightarrow> horizon" where
  "horizon_of accum counter bs =
     \<lparr>S_stat = accum, n_count = counter, variance = varS counter bs,
      Z = zscore counter accum bs, flag = trend (zscore counter accum bs)\<rparr>"

text \<open>Lines 358-491: the statistics of one cache at the end of the cycle at time \<open>t\<close>.\<close>

definition mann_kendall :: "int \<Rightarrow> slab_MK \<Rightarrow> horizon \<times> horizon \<times> horizon" where
  "mann_kendall t mk =
     (let st = outer_loop t (sValues mk) scan0
      in (horizon_of (accumTotal st) (counterTotal st) (tiedbucketsTotal mk),
          horizon_of (accumMID_TERM st) (counterMID_TERM st) (tiedbucketsMID_TERM mk),
          horizon_of (accumSHORT_TERM st) (counterSHORT_TERM st) (tiedbucketsSHORT_TERM mk)))"

definition total_of :: "horizon \<times> horizon \<times> horizon \<Rightarrow> horizon" where
  "total_of r = fst r"

definition mid_of :: "horizon \<times> horizon \<times> horizon \<Rightarrow> horizon" where
  "mid_of r = fst (snd r)"

definition short_of :: "horizon \<times> horizon \<times> horizon \<Rightarrow> horizon" where
  "short_of r = snd (snd r)"

subsection \<open>The registry, one cycle, and the cycles of a run\<close>

text \<open>Lines 193-205: the position of the first entry of the registry with the name.\<close>

fun searchSLAB :: "slab_MK list \<Rightarrow> string \<Rightarrow> nat option" where
  "searchSLAB [] nm = None"
| "searchSLAB (mk # rest) nm =
     (if name mk = nm then Some 0 else map_option Suc (searchSLAB rest nm))"

text \<open>
  Lines 259-505: one cycle at time \<open>t\<close> over the caches reported, in the order in which
  \<open>slabsort\<close> has put them.  A new cache is put in front of the registry (lines 292-293), a
  known one is updated where it stands.  The second component holds what is logged, one
  record per cache reported.  (\<open>get_slabinfo\<close> is the sample source; a cycle in which it
  fails ends the run before anything is changed.)
\<close>

fun monitor ::
  "int \<Rightarrow> slab_info list \<Rightarrow> slab_MK list
     \<Rightarrow> error + (slab_MK list \<times> (horizon \<times> horizon \<times> horizon) list)" where
  "monitor t [] slab_mk_values = Inr (slab_mk_values, [])"
| "monitor t (info # rest) slab_mk_values =
     (let found = searchSLAB slab_mk_values (info_name info)
      in case retention t info (map_option (\<lambda>i. slab_mk_values ! i) found) of
           Inl e \<Rightarrow> Inl e
         | Inr mk \<Rightarrow>
             (case monitor t rest
                     (case found of
                        None \<Rightarrow> mk # slab_mk_values
                      | Some i \<Rightarrow> slab_mk_values[i := mk]) of
                Inl e \<Rightarrow> Inl e
              | Inr (registry, records) \<Rightarrow> Inr (registry, mann_kendall t mk # records)))"

text \<open>
  Lines 586-597: cycle \<open>i\<close> runs at time \<open>i * delay\<close>.  The product is a \<open>long\<close>, and
  \<open>monitor\<close> takes an \<open>int\<close>: the conversion keeps the low 32 bits (\<open>int32\<close>), so the
  time stamps are those of the cycles as long as \<open>i * delay\<close> is below \<open>2 ^ 31\<close>.  \<open>later\<close>
  holds what the sample source reports in the cycles from \<open>i\<close> on.
\<close>

fun main_loop :: "int \<Rightarrow> nat \<Rightarrow> slab_info list list \<Rightarrow> slab_MK list \<Rightarrow> error + slab_MK list" where
  "main_loop delay i [] slab_mk_values = Inr slab_mk_values"
| "main_loop delay i (slab_list # later) slab_mk_values =
     (case monitor (int32 (int i * delay)) slab_list slab_mk_values of
        Inl e \<Rightarrow> Inl e
      | Inr (registry, records) \<Rightarrow> main_loop delay (Suc i) later registry)"

section \<open>Notions used to state the properties\<close>

text \<open>
  The Mann-Kendall sum as the specification words it: over all pairs of positions
  \<open>i < j\<close> of the series (position \<open>i\<close> holds the newer sample), the sign of
  \<open>value (newer) - value (older)\<close>; for a bounded horizon, only over the pairs whose two
  samples both have a time stamp of at least \<open>t - window\<close>.
\<close>

definition pair_sum :: "(s \<Rightarrow> s \<Rightarrow> int) \<Rightarrow> s list \<Rightarrow> int" where
  "pair_sum f xs = (\<Sum>i\<leftarrow>[0..<length xs]. \<Sum>j\<leftarrow>[Suc i..<length xs]. f (xs ! i) (xs ! j))"

definition S_pairs :: "s list \<Rightarrow> int" where
  "S_pairs xs = pair_sum (\<lambda>newer older. sgn (val newer - val older)) xs"

definition in_window :: "int \<Rightarrow> int \<Rightarrow> s \<Rightarrow> bool" where
  "in_window t w x = (timestamp x \<ge> t - w)"

definition S_window :: "int \<Rightarrow> int \<Rightarrow> s list \<Rightarrow> int" where
  "S_window t w xs =
     pair_sum (\<lambda>newer older. if in_window t w newer \<and> in_window t w older
                              then sgn (val newer - val older) else 0) xs"

text \<open>The accumulators hold values of a C \<open>int\<close>.\<close>

definition in_range :: "scan \<Rightarrow> bool" where
  "in_range st \<longleftrightarrow>
     int32 (accumTotal st) = accumTotal st \<and>
     int32 (accumMID_TERM st) = accumMID_TERM st \<and>
     int32 (accumSHORT_TERM st) = accumSHORT_TERM st"

text \<open>
  A bucket list \<open>bs\<close> counts the samples \<open>ys\<close>: its values are pairwise distinct, every
  bucket holds the number of samples of \<open>ys\<close> with its value, and every value of \<open>ys\<close>
  has a bucket.  \<open>live xs b\<close> are the nodes of the series from the node with creation
  index \<open>b\<close> to the newest one.  At the end of a cycle the histogram of a bounded horizon
  counts the live nodes of its boundary; after a boundary has run off the newest node
  (\<open>NULL\<close>), it counts the one node linked in since.
\<close>

definition occurrences :: "int \<Rightarrow> s list \<Rightarrow> int" where
  "occurrences v ys = int (length (filter (\<lambda>x. val x = v) ys))"

definition hist_ok :: "slab_buckets list \<Rightarrow> s list \<Rightarrow> bool" where
  "hist_ok bs ys \<longleftrightarrow>
     distinct (map bvalue bs) \<and>
     (\<forall>b \<in> set bs. tied b = occurrences (bvalue b) ys) \<and>
     val ` set ys \<subseteq> set (map bvalue bs)"

definition live :: "s list \<Rightarrow> nat \<Rightarrow> s list" where
  "live xs b = take (length xs - b) xs"

definition bound_ok :: "s list \<Rightarrow> nat option \<Rightarrow> slab_buckets list \<Rightarrow> bool" where
  "bound_ok xs boundary bs =
     (case boundary of
        Some b \<Rightarrow> b < length xs \<and> hist_ok bs (live xs b)
      | None \<Rightarrow> hist_ok bs (take 1 xs))"

definition entity_ok :: "slab_MK \<Rightarrow> bool" where
  "entity_ok mk \<longleftrightarrow>
     hist_ok (tiedbucketsTotal mk) (sValues mk) \<and>
     bound_ok (sValues mk) (lastMID_TERM mk) (tiedbucketsMID_TERM mk) \<and>
     bound_ok (sValues mk) (lastSHORT_TERM mk) (tiedbucketsSHORT_TERM mk)"

definition buckets_from :: "slab_buckets list \<Rightarrow> s list \<Rightarrow> bool" where
  "buckets_from bs xs \<longleftrightarrow> set (map bvalue bs) \<subseteq> val ` set xs"

definition node_of :: "int \<times> int \<Rightarrow> s" where
  "node_of p = \<lparr>timestamp = fst p, val = snd p\<rparr>"

text \<open>
  A cache that is sampled in consecutive cycles, \<open>d\<close> seconds apart: the sample at
  position \<open>i\<close> was taken at \<open>t - i * d\<close>, and the boundary of a horizon with window \<open>w\<close>
  splits the positions into those within \<open>w\<close> seconds of \<open>t\<close> and the older ones.
  \<open>tracks\<close> is what the specification asks of a boundary at the end of the cycle at
  time \<open>t\<close>.
\<close>

definition stamped :: "int \<Rightarrow> int \<Rightarrow> s list \<Rightarrow> bool" where
  "stamped t d xs \<longleftrightarrow> (\<forall>i < length xs. timestamp (xs ! i) = t - int i * d)"

definition window_ok :: "int \<Rightarrow> int \<Rightarrow> nat \<Rightarrow> nat \<Rightarrow> bool" where
  "window_ok d w n b \<longleftrightarrow> b < n \<and> (\<forall>i < n. int i * d \<le> w \<longleftrightarrow> i < n - b)"

definition paced_ok :: "int \<Rightarrow> int \<Rightarrow> slab_MK \<Rightarrow> bool" where
  "paced_ok t d mk \<longleftrightarrow>
     entity_ok mk \<and> stamped t d (sValues mk) \<and>
     (\<exists>b. lastMID_TERM mk = Some b \<and> window_ok d MID_TERM (length (sValues mk)) b) \<and>
     (\<exists>b. lastSHORT_TERM mk = Some b \<and> window_ok d SHORT_TERM (length (sValues mk)) b)"

definition tracks :: "int \<Rightarrow> int \<Rightarrow> s list \<Rightarrow> nat \<Rightarrow> slab_buckets list \<Rightarrow> bool" where
  "tracks t w xs b bs \<longleftrightarrow>
     (\<exists>nd. node_at xs b = Some nd \<and> in_window t w nd \<and>
        (\<forall>x \<in> set xs. in_window t w x \<longrightarrow> timestamp nd \<le> timestamp x)) \<and>
     (\<forall>k < length xs. b < k \<longrightarrow> (\<exists>x. node_at xs k = Some x \<and> in_window t w x)) \<and>
     (\<forall>k < b. \<exists>x. node_at xs k = Some x \<and> \<not> in_window t w x) \<and>
     hist_ok bs (live xs b)"

text \<open>
  The same for any interval \<open>d\<close>, as long as the cycles complete: a horizon whose window
  is shorter than \<open>d\<close> has its boundary on the first node after one sample, and has it
  run off the newest node (\<open>NULL\<close>) after two.
\<close>

definition horizon_paced :: "int \<Rightarrow> int \<Rightarrow> nat \<Rightarrow> nat option \<Rightarrow> bool" where
  "horizon_paced d w n boundary \<longleftrightarrow>
     (d \<le> w \<and> (\<exists>b. boundary = Some b \<and> window_ok d w n b)) \<or>
     (w < d \<and> (n = 1 \<and> boundary = Some 0 \<or> n = 2 \<and> boundary = None))"

definition run_ok :: "int \<Rightarrow> int \<Rightarrow> slab_MK \<Rightarrow> bool" where
  "run_ok t d mk \<longleftrightarrow>
     entity_ok mk \<and> stamped t d (sValues mk) \<and>
     horizon_paced d MID_TERM (length (sValues mk)) (lastMID_TERM mk) \<and>
     horizon_paced d SHORT_TERM (length (sValues mk)) (lastSHORT_TERM mk)"

text \<open>
  The three records logged for a cache, and what the specification expects of a horizon
  that holds \<open>k\<close> strictly increasing values.
\<close>

definition horizons :: "horizon \<times> horizon \<times> horizon \<Rightarrow> horizon list" where
  "horizons r = [total_of r, mid_of r, short_of r]"

definition increasing_stats :: "int \<Rightarrow> horizon \<Rightarrow> slab_buckets list \<Rightarrow> bool" where
  "increasing_stats k h bs \<longleftrightarrow>
     S_stat h = k * (k - 1) div 2 \<and> n_count h = k \<and>
     (\<forall>b \<in> set bs. tied b = 1) \<and>
     variance h = real_of_int (k * (k - 1) * (2 * k + 5)) / 18 \<and>
     (k = 30 \<longrightarrow> d_gt (Z h) criticalValue \<and> flag h = ''YES'')"

text \<open>
  The retirement step as the specification words it, a loop: while the boundary node is
  older than \<open>t - window\<close>, decrement the bucket of its value and advance the boundary.
  \<open>retired_once\<close> is one test of the boundary node followed by the insertion of the
  new value \<open>v\<close>.
\<close>

function retire_while_spec ::
  "int \<Rightarrow> int \<Rightarrow> s list \<Rightarrow> nat option \<Rightarrow> slab_buckets list \<Rightarrow> nat option \<times> slab_buckets list" where
  "retire_while_spec t w xs None bs = (None, bs)"
| "retire_while_spec t w xs (Some k) bs =
     (case node_at xs k of
        None \<Rightarrow> (Some k, bs)
      | Some nd \<Rightarrow>
          if timestamp nd < t - w
          then retire_while_spec t w xs (prev_of xs k) (decrement bs (searchBucket bs (val nd)))
          else (Some k, bs))"
  by pat_completeness auto
termination
  by (relation "measure (\<lambda>(t, w, xs, boundary, bs).
        case boundary of None \<Rightarrow> 0 | Some k \<Rightarrow> length xs - k)")
     (auto simp: node_at_def prev_of_def split: if_splits)

definition retired_once ::
  "int \<Rightarrow> int \<Rightarrow> s list \<Rightarrow> nat \<Rightarrow> s \<Rightarrow> slab_buckets list \<Rightarrow> int
     \<Rightarrow> nat option \<Rightarrow> slab_buckets list \<Rightarrow> bool" where
  "retired_once t w xs b nd bs v b' bs' \<longleftrightarrow>
     (timestamp nd < t - w \<longrightarrow>
        b' = prev_of xs b \<and>
        bs' = count_in (map (\<lambda>c. if bvalue c = val nd then c\<lparr>tied := tied c - 1\<rparr> else c) bs) v) \<and>
     (\<not> timestamp nd < t - w \<longrightarrow> b' = Some b \<and> bs' = count_in bs v)"

text \<open>
  The tie-corrected variance as the specification words it, with the products taken in
  the integers.
\<close>

definition tie_term :: "slab_buckets list \<Rightarrow> int" where
  "tie_term bs = (\<Sum>b\<leftarrow>bs. if tied b > 1 then tied b * (tied b - 1) * (2 * tied b + 5) else 0)"

definition variance_spec :: "int \<Rightarrow> slab_buckets list \<Rightarrow> real" where
  "variance_spec n bs =
     (if n > 1 then (real_of_int (n * (n - 1) * (2 * n + 5)) - real_of_int (tie_term bs)) / 18
      else 0)"

text \<open>
  Runs used as examples, all of the one cache \<open>kmalloc-64\<close> with objects of size 1.
  \<open>after_two d\<close>: a cache with the values 100 and 200, sampled
  \<open>d\<close> seconds apart.  \<open>after_gap\<close>: with a delay of 600 seconds, the cache is reported in
  the cycles at 0 and 600, is missing from the reports at 1200 and 1800, and is reported
  again at 2400.  \<open>after_eight\<close>: eight rising values, 600 seconds apart, so that both
  boundaries have moved.  \<open>after_decline\<close>: five falling values, 30 seconds apart.  \<open>long_run\<close>:
  the values 1 to 65537, 30 seconds apart.  \<open>constant_run\<close>: 1024 times the value 4096,
  30 seconds apart.
\<close>

definition kmalloc_64 :: "32 word \<Rightarrow> slab_info" where
  "kmalloc_64 n = \<lparr>info_name = ''kmalloc-64'', nr_active_objs = n, obj_size = 1\<rparr>"

definition after_two :: "int \<Rightarrow> slab_MK" where
  "after_two d =
     \<lparr>name = ''kmalloc-64'',
      sValues = [\<lparr>timestamp = d, val = 200\<rparr>, \<lparr>timestamp = 0, val = 100\<rparr>],
      lastMID_TERM = Some 0,
      lastSHORT_TERM = (if d > 900 then None else Some 0),
      tiedbucketsTotal = [\<lparr>bvalue = 200, tied = 1\<rparr>, \<lparr>bvalue = 100, tied = 1\<rparr>],
      tiedbucketsMID_TERM = [\<lparr>bvalue = 200, tied = 1\<rparr>, \<lparr>bvalue = 100, tied = 1\<rparr>],
      tiedbucketsSHORT_TERM =
        [\<lparr>bvalue = 200, tied = 1\<rparr>, \<lparr>bvalue = 100, tied = (if d > 900 then 0 else 1)\<rparr>]\<rparr>"

definition after_gap :: slab_MK where
  "after_gap =
     \<lparr>name = ''kmalloc-64'',
      sValues = [\<lparr>timestamp = 2400, val = 300\<rparr>, \<lparr>timestamp = 600, val = 200\<rparr>,
                 \<lparr>timestamp = 0, val = 100\<rparr>],
      lastMID_TERM = Some 0,
      lastSHORT_TERM = Some 1,
      tiedbucketsTotal =
        [\<lparr>bvalue = 300, tied = 1\<rparr>, \<lparr>bvalue = 200, tied = 1\<rparr>, \<lparr>bvalue = 100, tied = 1\<rparr>],
      tiedbucketsMID_TERM =
        [\<lparr>bvalue = 300, tied = 1\<rparr>, \<lparr>bvalue = 200, tied = 1\<rparr>, \<lparr>bvalue = 100, tied = 1\<rparr>],
      tiedbucketsSHORT_TERM =
        [\<lparr>bvalue = 300, tied = 1\<rparr>, \<lparr>bvalue = 200, tied = 1\<rparr>, \<lparr>bvalue = 100, tied = 0\<rparr>]\<rparr>"

definition after_eight :: slab_MK where
  "after_eight =
     \<lparr>name = ''kmalloc-64'',
      sValues = [\<lparr>timestamp = 4200, val = 800\<rparr>, \<lparr>timestamp = 3600, val = 700\<rparr>,
                 \<lparr>timestamp = 3000, val = 600\<rparr>, \<lparr>timestamp = 2400, val = 500\<rparr>,
                 \<lparr>timestamp = 1800, val = 400\<rparr>, \<lparr>timestamp = 1200, val = 300\<rparr>,
                 \<lparr>timestamp = 600, val = 200\<rparr>, \<lparr>timestamp = 0, val = 100\<rparr>],
      lastMID_TERM = Some 1,
      lastSHORT_TERM = Some 6,
      tiedbucketsTotal =
        [\<lparr>bvalue = 800, tied = 1\<rparr>, \<lparr>bvalue = 700, tied = 1\<rparr>, \<lparr>bvalue = 600, tied = 1\<rparr>,
         \<lparr>bvalue = 500, tied = 1\<rparr>, \<lparr>bvalue = 400, tied = 1\<rparr>, \<lparr>bvalue = 300, tied = 1\<rparr>,
         \<lparr>bvalue = 200, tied = 1\<rparr>, \<lparr>bvalue = 100, tied = 1\<rparr>],
      tiedbucketsMID_TERM =
        [\<lparr>bvalue = 800, tied = 1\<rparr>, \<lparr>bvalue = 700, tied = 1\<rparr>, \<lparr>bvalue = 600, tied = 1\<rparr>,
         \<lparr>bvalue = 500, tied = 1\<rparr>, \<lparr>bvalue = 400, tied = 1\<rparr>, \<lparr>bvalue = 300, tied = 1\<rparr>,
         \<lparr>bvalue = 200, tied = 1\<rparr>, \<lparr>bvalue = 100, tied = 0\<rparr>],
      tiedbucketsSHORT_TERM =
        [\<lparr>bvalue = 800, tied = 1\<rparr>, \<lparr>bvalue = 700, tied = 1\<rparr>, \<lparr>bvalue = 600, tied = 0\<rparr>,
         \<lparr>bvalue = 500, tied = 0\<rparr>, \<lparr>bvalue = 400, tied = 0\<rparr>, \<lparr>bvalue = 300, tied = 0\<rparr>,
         \<lparr>bvalue = 200, tied = 0\<rparr>, \<lparr>bvalue = 100, tied = 0\<rparr>]\<rparr>"

definition after_decline :: slab_MK where
  "after_decline =
     \<lparr>name = ''kmalloc-64'',
      sValues = [\<lparr>timestamp = 120, val = 100\<rparr>, \<lparr>timestamp = 90, val = 200\<rparr>,
                 \<lparr>timestamp = 60, val = 300\<rparr>, \<lparr>timestamp = 30, val = 400\<rparr>,
                 \<lparr>timestamp = 0, val = 500\<rparr>],
      lastMID_TERM = Some 0,
      lastSHORT_TERM = Some 0,
      tiedbucketsTotal =
        [\<lparr>bvalue = 100, tied = 1\<rparr>, \<lparr>bvalue = 200, tied = 1\<rparr>, \<lparr>bvalue = 300, tied = 1\<rparr>,
         \<lparr>bvalue = 400, tied = 1\<rparr>, \<lparr>bvalue = 500, tied = 1\<rparr>],
      tiedbucketsMID_TERM =
        [\<lparr>bvalue = 100, tied = 1\<rparr>, \<lparr>bvalue = 200, tied = 1\<rparr>, \<lparr>bvalue = 300, tied = 1\<rparr>,
         \<lparr>bvalue = 400, tied = 1\<rparr>, \<lparr>bvalue = 500, tied = 1\<rparr>],
      tiedbucketsSHORT_TERM =
        [\<lparr>bvalue = 100, tied = 1\<rparr>, \<lparr>bvalue = 200, tied = 1\<rparr>, \<lparr>bvalue = 300, tied = 1\<rparr>,
         \<lparr>bvalue = 400, tied = 1\<rparr>, \<lparr>bvalue = 500, tied = 1\<rparr>]\<rparr>"

definition ramp :: "int list" where
  "ramp = [2..65537]"

definition long_run :: "error + slab_MK" where
  "long_run = every_cycle ''kmalloc-64'' 0 30 1 ramp"

definition steady :: "int list" where
  "steady = replicate 1023 4096"

definition constant_run :: "error + slab_MK" where
  "constant_run = every_cycle ''kmalloc-64'' 0 30 4096 steady"

section \<open>Auxiliary facts\<close>

lemma sum_list_upt_Suc_shift:
  "(\<Sum>i\<leftarrow>[Suc a..<Suc b]. f i) = (\<Sum>i\<leftarrow>[a..<b]. f (Suc i))"
proof -
  have "[Suc a..<Suc b] = map Suc [a..<b]" by (simp add: map_Suc_upt)
  then show ?thesis by (simp add: comp_def)
qed

lemma sum_list_upt_0_Suc:
  "(\<Sum>i\<leftarrow>[0..<Suc n]. f i) = f 0 + (\<Sum>i\<leftarrow>[0..<n]. f (Suc i))"
proof -
  have "[0..<Suc n] = 0 # [Suc 0..<Suc n]" by (simp add: upt_rec)
  then show ?thesis by (simp add: sum_list_upt_Suc_shift del: upt_Suc)
qed

lemma sum_list_nth: "(\<Sum>j\<leftarrow>[0..<length xs]. f (xs ! j)) = (\<Sum>x\<leftarrow>xs. f x)"
proof -
  have "map (\<lambda>j. f (xs ! j)) [0..<length xs] = map f (map ((!) xs) [0..<length xs])"
    by simp
  then show ?thesis by (simp only: map_nth)
qed

lemma pair_sum_Cons: "pair_sum f (a # rest) = (\<Sum>b\<leftarrow>rest. f a b) + pair_sum f rest"
proof -
  have "(\<Sum>j\<leftarrow>[0..<length rest]. f a (rest ! j)) = (\<Sum>b\<leftarrow>rest. f a b)"
    by (rule sum_list_nth)
  then show ?thesis
    unfolding pair_sum_def
    by (simp add: sum_list_upt_0_Suc sum_list_upt_Suc_shift del: upt_Suc)
qed

lemma pair_sum_Nil [simp]: "pair_sum f [] = 0"
  by (simp add: pair_sum_def)

lemma int32_int32_add [simp]: "int32 (int32 x + y) = int32 (x + y)"
  unfolding int32_def by (simp add: mod_simps algebra_simps)

lemma int32_int32_diff [simp]: "int32 (int32 x - y) = int32 (x - y)"
  unfolding int32_def by (simp add: mod_simps algebra_simps)

lemma int32_add_int32 [simp]: "int32 (x + int32 y) = int32 (x + y)"
  unfolding int32_def by (simp add: mod_simps algebra_simps)

lemma int32_id: "- 2147483648 \<le> x \<Longrightarrow> x < 2147483648 \<Longrightarrow> int32 x = x"
  unfolding int32_def by simp

lemma inner_loop_counters [simp]:
  "counterTotal (inner_loop t a rest st) = counterTotal st"
  "counterMID_TERM (inner_loop t a rest st) = counterMID_TERM st"
  "counterSHORT_TERM (inner_loop t a rest st) = counterSHORT_TERM st"
  by (induction rest arbitrary: st; simp add: pair_step_def Let_def)+

lemma inner_loop_accumTotal:
  "accumTotal (inner_loop t a rest st) =
     int32 (accumTotal st + (\<Sum>b\<leftarrow>rest. sgn (val a - val b)))" if "int32 (accumTotal st) = accumTotal st"
  using that
proof (induction rest arbitrary: st)
  case Nil
  then show ?case by simp
next
  case (Cons b rest)
  have "int32 (accumTotal (pair_step t a b st)) = accumTotal (pair_step t a b st)"
    using Cons.prems by (simp add: pair_step_def Let_def int32_def)
  then show ?case
    using Cons.IH [of "pair_step t a b st"] 
    by (simp add: pair_step_def Let_def algebra_simps)
qed

lemma int32_idem [simp]: "int32 (int32 x) = int32 x"
  unfolding int32_def by (simp add: mod_simps algebra_simps)

lemma pair_step_in_range: "in_range st \<Longrightarrow> in_range (pair_step t a b st)"
  by (simp add: in_range_def pair_step_def Let_def)

lemma inner_loop_in_range: "in_range st \<Longrightarrow> in_range (inner_loop t a rest st)"
  by (induction rest arbitrary: st) (simp_all add: pair_step_in_range)

lemma inner_loop_accumMID:
  assumes "in_range st"
  shows "accumMID_TERM (inner_loop t a rest st) =
     int32 (accumMID_TERM st +
       (\<Sum>b\<leftarrow>rest. if in_window t MID_TERM a \<and> in_window t MID_TERM b
                   then sgn (val a - val b) else 0))"
  using assms
proof (induction rest arbitrary: st)
  case Nil
  then show ?case by (simp add: in_range_def)
next
  case (Cons b rest)
  show ?case
    using Cons.IH [OF pair_step_in_range [OF Cons.prems]] Cons.prems
    by (simp add: pair_step_def Let_def in_window_def in_range_def algebra_simps)
qed

lemma inner_loop_accumSHORT:
  assumes "in_range st"
  shows "accumSHORT_TERM (inner_loop t a rest st) =
     int32 (accumSHORT_TERM st +
       (\<Sum>b\<leftarrow>rest. if in_window t SHORT_TERM a \<and> in_window t SHORT_TERM b
                   then sgn (val a - val b) else 0))"
  using assms
proof (induction rest arbitrary: st)
  case Nil
  then show ?case by (simp add: in_range_def)
next
  case (Cons b rest)
  show ?case
    using Cons.IH [OF pair_step_in_range [OF Cons.prems]] Cons.prems
    by (simp add: pair_step_def Let_def in_window_def in_range_def algebra_simps)
qed

lemma count_step_accums [simp]:
  "accumTotal (count_step t a st) = accumTotal st"
  "accumMID_TERM (count_step t a st) = accumMID_TERM st"
  "accumSHORT_TERM (count_step t a st) = accumSHORT_TERM st"
  by (simp_all add: count_step_def)

lemma count_step_in_range [simp]: "in_range (count_step t a st) = in_range st"
  by (simp add: in_range_def)

lemma outer_loop_accumTotal:
  assumes "in_range st"
  shows "accumTotal (outer_loop t xs st) = int32 (accumTotal st + S_pairs xs)"
  using assms
proof (induction xs arbitrary: st)
  case Nil
  then show ?case by (simp add: S_pairs_def in_range_def)
next
  case (Cons a rest)
  have "in_range (count_step t a (inner_loop t a rest st))"
    using Cons.prems by (simp add: inner_loop_in_range)
  from Cons.IH [OF this] show ?case
    using Cons.prems
    by (simp add: inner_loop_accumTotal in_range_def S_pairs_def pair_sum_Cons ac_simps)
qed

lemma outer_loop_accumMID:
  assumes "in_range st"
  shows "accumMID_TERM (outer_loop t xs st) = int32 (accumMID_TERM st + S_window t MID_TERM xs)"
  using assms
proof (induction xs arbitrary: st)
  case Nil
  then show ?case by (simp add: S_window_def in_range_def)
next
  case (Cons a rest)
  have "in_range (count_step t a (inner_loop t a rest st))"
    using Cons.prems by (simp add: inner_loop_in_range)
  from Cons.IH [OF this] show ?case
    using Cons.prems
    by (simp add: inner_loop_accumMID S_window_def pair_sum_Cons ac_simps)
qed

lemma outer_loop_accumSHORT:
  assumes "in_range st"
  shows "accumSHORT_TERM (outer_loop t xs st) = int32 (accumSHORT_TERM st + S_window t SHORT_TERM xs)"
  using assms
proof (induction xs arbitrary: st)
  case Nil
  then show ?case by (simp add: S_window_def in_range_def)
next
  case (Cons a rest)
  have "in_range (count_step t a (inner_loop t a rest st))"
    using Cons.prems by (simp add: inner_loop_in_range)
  from Cons.IH [OF this] show ?case
    using Cons.prems
    by (simp add: inner_loop_accumSHORT S_window_def pair_sum_Cons ac_simps)
qed

lemma outer_loop_counterTotal:
  "counterTotal (outer_loop t xs st) = counterTotal st + int (length xs)"
  by (induction xs arbitrary: st) (simp_all add: count_step_def)

lemma outer_loop_counterMID:
  "counterMID_TERM (outer_loop t xs st) =
     counterMID_TERM st + int (length (filter (in_window t MID_TERM) xs))"
  by (induction xs arbitrary: st) (simp_all add: count_step_def in_window_def)

lemma outer_loop_counterSHORT:
  "counterSHORT_TERM (outer_loop t xs st) =
     counterSHORT_TERM st + int (length (filter (in_window t SHORT_TERM) xs))"
  by (induction xs arbitrary: st) (simp_all add: count_step_def in_window_def)

lemma sum_list_abs_le:
  assumes "\<And>x. x \<in> set xs \<Longrightarrow> \<bar>f x\<bar> \<le> (1::int)"
  shows "\<bar>\<Sum>x\<leftarrow>xs. f x\<bar> \<le> int (length xs)"
  using assms
proof (induction xs)
  case Nil
  then show ?case by simp
next
  case (Cons a xs)
  have "\<bar>f a\<bar> \<le> 1" using Cons.prems by simp
  moreover have "\<bar>\<Sum>x\<leftarrow>xs. f x\<bar> \<le> int (length xs)"
    using Cons by simp
  ultimately show ?case by simp
qed

lemma pair_sum_bound:
  assumes "\<And>a b. \<bar>f a b\<bar> \<le> 1"
  shows "2 * \<bar>pair_sum f xs\<bar> \<le> int (length xs) * (int (length xs) - 1)"
proof (induction xs)
  case Nil
  then show ?case by simp
next
  case (Cons a rest)
  define p where "p = pair_sum f rest"
  define q where "q = (\<Sum>b\<leftarrow>rest. f a b)"
  define n where "n = int (length rest)"
  have q: "\<bar>q\<bar> \<le> n"
    unfolding q_def n_def by (rule sum_list_abs_le) (rule assms)
  define m where "m = n * (n - 1)"
  have p: "2 * \<bar>p\<bar> \<le> m"
    using Cons.IH by (simp add: p_def n_def m_def)
  have "\<bar>q + p\<bar> \<le> \<bar>q\<bar> + \<bar>p\<bar>"
    by (rule abs_triangle_ineq)
  then have "2 * \<bar>q + p\<bar> \<le> 2 * n + m"
    using p q by simp
  then have "2 * \<bar>q + p\<bar> \<le> 2 * n + n * (n - 1)"
    by (simp add: m_def)
  also have "\<dots> = (n + 1) * (n + 1 - 1)"
    by (simp add: algebra_simps)
  finally show ?case
    by (simp add: pair_sum_Cons p_def q_def n_def add.commute)
qed

lemma abs_sgn_le_1: "\<bar>sgn (x::int)\<bar> \<le> 1"
  by (simp add: sgn_if)

lemma S_pairs_bound: "2 * \<bar>S_pairs xs\<bar> \<le> int (length xs) * (int (length xs) - 1)"
  unfolding S_pairs_def by (rule pair_sum_bound) (rule abs_sgn_le_1)

lemma S_window_bound: "2 * \<bar>S_window t w xs\<bar> \<le> int (length xs) * (int (length xs) - 1)"
  unfolding S_window_def by (rule pair_sum_bound) (simp add: sgn_if)

lemma small_series_fits:
  assumes "length xs \<le> 65536" and "2 * \<bar>x\<bar> \<le> int (length xs) * (int (length xs) - 1)"
  shows "int32 x = x"
proof -
  have "int (length xs) * (int (length xs) - 1) \<le> 65536 * 65535"
  proof (cases xs)
    case Nil
    then show ?thesis by simp
  next
    case (Cons a rest)
    then show ?thesis using assms(1) by (intro mult_mono) auto
  qed
  then have "2 * \<bar>x\<bar> \<le> 65536 * 65535" using assms(2) by linarith
  then show ?thesis by (intro int32_id) auto
qed

lemma searchBucket_None: "searchBucket bs v = None \<longleftrightarrow> v \<notin> bvalue ` set bs"
  by (induction bs) auto

lemma searchBucket_Some:
  "searchBucket bs v = Some i \<Longrightarrow> i < length bs \<and> bvalue (bs ! i) = v"
  by (induction bs arbitrary: i) (auto split: if_splits)

lemma update_found:
  "distinct (map bvalue bs) \<Longrightarrow> searchBucket bs v = Some i \<Longrightarrow>
   bs[i := g (bs ! i)] = map (\<lambda>b. if bvalue b = v then g b else b) bs"
proof (induction bs arbitrary: i)
  case Nil
  then show ?case by simp
next
  case (Cons b bs)
  show ?case
  proof (cases "v = bvalue b")
    case True
    then have "i = 0" using Cons.prems by simp
    moreover have "map (\<lambda>b. if bvalue b = v then g b else b) bs = bs"
      using Cons.prems(1) True by (intro map_idI) (force simp: image_iff)
    ultimately show ?thesis using True by simp
  next
    case False
    then obtain j where j: "i = Suc j" "searchBucket bs v = Some j"
      using Cons.prems(2) by auto
    then show ?thesis using Cons.IH [of j] Cons.prems(1) False by auto
  qed
qed

lemma count_in_found:
  "distinct (map bvalue bs) \<Longrightarrow> v \<in> bvalue ` set bs \<Longrightarrow>
   count_in bs v = map (\<lambda>b. if bvalue b = v then b\<lparr>tied := tied b + 1\<rparr> else b) bs"
  using update_found [of bs v _ "\<lambda>b. b\<lparr>tied := tied b + 1\<rparr>"] searchBucket_None [of bs v]
  by (auto simp: count_in_def split: option.splits)

lemma count_in_new:
  "v \<notin> bvalue ` set bs \<Longrightarrow> count_in bs v = \<lparr>bvalue = v, tied = 1\<rparr> # bs"
  using searchBucket_None [of bs v] by (simp add: count_in_def)

lemma decrement_found:
  "distinct (map bvalue bs) \<Longrightarrow> v \<in> bvalue ` set bs \<Longrightarrow>
   decrement bs (searchBucket bs v) =
     map (\<lambda>b. if bvalue b = v then b\<lparr>tied := tied b - 1\<rparr> else b) bs"
  using update_found [of bs v _ "\<lambda>b. b\<lparr>tied := tied b - 1\<rparr>"] searchBucket_None [of bs v]
  by (auto simp: decrement_def split: option.splits)

lemma bvalue_map_tied:
  "map bvalue (map (\<lambda>b. if bvalue b = v then b\<lparr>tied := f (tied b)\<rparr> else b) bs) = map bvalue bs"
  by (induction bs) auto

lemma ball_map_tied:
  assumes "\<And>b. b \<in> set bs \<Longrightarrow> bvalue b = v \<Longrightarrow> f (tied b) = occurrences v ys"
    and "\<And>b. b \<in> set bs \<Longrightarrow> bvalue b \<noteq> v \<Longrightarrow> tied b = occurrences (bvalue b) ys"
  shows "\<forall>b \<in> set (map (\<lambda>b. if bvalue b = v then b\<lparr>tied := f (tied b)\<rparr> else b) bs).
           tied b = occurrences (bvalue b) ys"
proof
  fix c assume "c \<in> set (map (\<lambda>b. if bvalue b = v then b\<lparr>tied := f (tied b)\<rparr> else b) bs)"
  then obtain b where b: "b \<in> set bs"
    "c = (if bvalue b = v then b\<lparr>tied := f (tied b)\<rparr> else b)"
    by auto
  show "tied c = occurrences (bvalue c) ys"
    using assms(1) [OF b(1)] assms(2) [OF b(1)] b(2) by (cases "bvalue b = v") auto
qed

lemma occurrences_Cons:
  "occurrences w (x # ys) = (if val x = w then 1 else 0) + occurrences w ys"
  by (simp add: occurrences_def)

lemma occurrences_snoc:
  "occurrences w (ys @ [x]) = occurrences w ys + (if val x = w then 1 else 0)"
  by (simp add: occurrences_def)

lemma occurrences_absent: "v \<notin> val ` set ys \<Longrightarrow> occurrences v ys = 0"
  by (auto simp: occurrences_def filter_empty_conv)

lemma hist_okI:
  "distinct (map bvalue bs) \<Longrightarrow> \<forall>b \<in> set bs. tied b = occurrences (bvalue b) ys \<Longrightarrow>
   val ` set ys \<subseteq> set (map bvalue bs) \<Longrightarrow> hist_ok bs ys"
  by (simp add: hist_ok_def)

lemma hist_okD:
  assumes "hist_ok bs ys"
  shows "distinct (map bvalue bs)" and "\<forall>b \<in> set bs. tied b = occurrences (bvalue b) ys"
    and "val ` set ys \<subseteq> set (map bvalue bs)"
  using assms by (simp_all add: hist_ok_def)

lemma count_in_ok:
  assumes "hist_ok bs ys"
  shows "hist_ok (count_in bs v) (\<lparr>timestamp = t, val = v\<rparr> # ys)"
proof (cases "v \<in> bvalue ` set bs")
  case True
  note h = hist_okD [OF assms]
  have "\<forall>b \<in> set (map (\<lambda>b. if bvalue b = v then b\<lparr>tied := tied b + 1\<rparr> else b) bs).
           tied b = occurrences (bvalue b) (\<lparr>timestamp = t, val = v\<rparr> # ys)"
    using h(2) by (intro ball_map_tied) (simp_all add: occurrences_Cons)
  moreover have "val ` set (\<lparr>timestamp = t, val = v\<rparr> # ys) \<subseteq> set (map bvalue bs)"
    using h(3) True by simp
  moreover have "map bvalue (map (\<lambda>b. if bvalue b = v then b\<lparr>tied := tied b + 1\<rparr> else b) bs)
      = map bvalue bs"
    by (rule bvalue_map_tied [of v "\<lambda>k. k + 1"])
  ultimately show ?thesis
    unfolding count_in_found [OF h(1) True]
    using h(1) by (intro hist_okI) (simp_all only:)
next
  case False
  note h = hist_okD [OF assms]
  have "v \<notin> val ` set ys" using h(3) False by auto
  then have o: "occurrences v ys = 0" by (rule occurrences_absent)
  have "\<forall>b \<in> set bs. tied b = occurrences (bvalue b) (\<lparr>timestamp = t, val = v\<rparr> # ys)"
  proof
    fix b assume b: "b \<in> set bs"
    then have "bvalue b \<noteq> v" using False by auto
    then show "tied b = occurrences (bvalue b) (\<lparr>timestamp = t, val = v\<rparr> # ys)"
      using h(2) b by (simp add: occurrences_Cons)
  qed
  then show ?thesis
    unfolding count_in_new [OF False]
    using h(1) h(3) False o by (intro hist_okI) (auto simp: occurrences_Cons)
qed

lemma decrement_ok:
  assumes "hist_ok bs (ys @ [nd])"
  shows "hist_ok (decrement bs (searchBucket bs (val nd))) ys"
proof -
  note h = hist_okD [OF assms]
  have v: "val nd \<in> bvalue ` set bs" using h(3) by auto
  have "\<forall>b \<in> set (map (\<lambda>b. if bvalue b = val nd then b\<lparr>tied := tied b - 1\<rparr> else b) bs).
           tied b = occurrences (bvalue b) ys"
    using h(2) by (intro ball_map_tied) (simp_all add: occurrences_snoc)
  moreover have "val ` set ys \<subseteq> set (map bvalue bs)"
    using h(3) by simp
  moreover have "map bvalue (map (\<lambda>b. if bvalue b = val nd then b\<lparr>tied := tied b - 1\<rparr> else b) bs)
      = map bvalue bs"
    by (rule bvalue_map_tied [of "val nd" "\<lambda>k. k - 1"])
  ultimately show ?thesis
    unfolding decrement_found [OF h(1) v]
    using h(1) by (intro hist_okI) (simp_all only:)
qed

lemma hist_ok_first: "hist_ok [\<lparr>bvalue = v, tied = 1\<rparr>] [\<lparr>timestamp = t, val = v\<rparr>]"
  by (simp add: hist_ok_def occurrences_def)

lemma sum_indicator_absent:
  "v \<notin> bvalue ` set bs \<Longrightarrow> (\<Sum>b\<leftarrow>bs. if bvalue b = v then 1 else 0) = (0::int)"
  by (induction bs) auto

lemma sum_indicator:
  "distinct (map bvalue bs) \<Longrightarrow> v \<in> bvalue ` set bs \<Longrightarrow>
   (\<Sum>b\<leftarrow>bs. if bvalue b = v then 1 else 0) = (1::int)"
proof (induction bs)
  case Nil
  then show ?case by simp
next
  case (Cons b bs)
  show ?case
  proof (cases "bvalue b = v")
    case True
    then have "v \<notin> bvalue ` set bs" using Cons.prems(1) by auto
    then show ?thesis using True by (simp add: sum_indicator_absent)
  next
    case False
    then show ?thesis using Cons by auto
  qed
qed

lemma sum_occurrences:
  assumes "distinct (map bvalue bs)" and "val ` set ys \<subseteq> bvalue ` set bs"
  shows "(\<Sum>b\<leftarrow>bs. occurrences (bvalue b) ys) = int (length ys)"
  using assms(2)
proof (induction ys)
  case Nil
  then show ?case by (simp add: occurrences_def)
next
  case (Cons y ys)
  have "(\<Sum>b\<leftarrow>bs. occurrences (bvalue b) (y # ys)) =
      (\<Sum>b\<leftarrow>bs. (if bvalue b = val y then 1 else 0) + occurrences (bvalue b) ys)"
    by (simp add: occurrences_Cons eq_commute [of "val y"])
  also have "\<dots> = (\<Sum>b\<leftarrow>bs. if bvalue b = val y then 1 else 0)
      + (\<Sum>b\<leftarrow>bs. occurrences (bvalue b) ys)"
    by (simp add: sum_list_addf)
  also have "\<dots> = 1 + int (length ys)"
    using Cons sum_indicator [OF assms(1), of "val y"] by simp
  finally show ?case by simp
qed

lemma hist_ok_sum:
  assumes "hist_ok bs ys"
  shows "(\<Sum>b\<leftarrow>bs. tied b) = int (length ys)"
proof -
  have "map tied bs = map (\<lambda>b. occurrences (bvalue b) ys) bs"
    using assms by (intro map_cong) (auto simp: hist_ok_def)
  moreover have "(\<Sum>b\<leftarrow>bs. occurrences (bvalue b) ys) = int (length ys)"
    using assms by (intro sum_occurrences) (auto simp: hist_ok_def)
  ultimately show ?thesis by (simp only:)
qed

lemma hist_ok_nonneg:
  assumes "hist_ok bs ys" and "b \<in> set bs"
  shows "0 \<le> tied b"
proof -
  have "tied b = occurrences (bvalue b) ys"
    using assms by (simp add: hist_ok_def)
  then show ?thesis by (simp add: occurrences_def)
qed

lemma node_at_live:
  assumes "b < length xs"
  shows "node_at xs b = Some (xs ! (length xs - 1 - b))"
    and "live xs b = live xs (Suc b) @ [xs ! (length xs - 1 - b)]"
proof -
  show "node_at xs b = Some (xs ! (length xs - 1 - b))"
    using assms by (simp add: node_at_def)
  have "length xs - b = Suc (length xs - 1 - b)" using assms by simp
  moreover have "length xs - 1 - b < length xs" using assms by simp
  ultimately show "live xs b = live xs (Suc b) @ [xs ! (length xs - 1 - b)]"
    by (simp add: live_def take_Suc_conv_app_nth)
qed

lemma live_Cons: "b \<le> length xs \<Longrightarrow> live (x # xs) b = x # live xs b"
  by (simp add: live_def Suc_diff_le)

lemma clean_keep:
  assumes "b < length xs" and "\<not> t - w > timestamp (xs ! (length xs - 1 - b))"
  shows "clean t w xs (Some b) bs = Inr (Some b, bs)"
  using assms by (simp add: clean_def node_at_def)

lemma clean_retire:
  assumes "b < length xs" and "t - w > timestamp (xs ! (length xs - 1 - b))"
  shows "clean t w xs (Some b) bs =
         Inr (prev_of xs b, decrement bs (searchBucket bs (val (xs ! (length xs - 1 - b)))))"
  using assms by (simp add: clean_def node_at_def)

lemma clean_NULL: "clean t w xs None bs = Inl NullDereference"
  by (simp add: clean_def)

lemma clean_ok:
  assumes "bound_ok xs (Some b) bs"
  shows "\<exists>b' bs'. clean t w xs (Some b) bs = Inr (b', bs') \<and>
           bound_ok (\<lparr>timestamp = t, val = v\<rparr> # xs) b' (count_in bs' v)"
proof -
  have b: "b < length xs" and h: "hist_ok bs (live xs b)"
    using assms by (simp_all add: bound_ok_def)
  show ?thesis
  proof (cases "t - w > timestamp (xs ! (length xs - 1 - b))")
    case False
    have "hist_ok (count_in bs v) (\<lparr>timestamp = t, val = v\<rparr> # live xs b)"
      using h by (rule count_in_ok)
    then have "bound_ok (\<lparr>timestamp = t, val = v\<rparr> # xs) (Some b) (count_in bs v)"
      using b by (simp add: bound_ok_def live_Cons)
    then show ?thesis using clean_keep [OF b False] by simp
  next
    case True
    let ?bs' = "decrement bs (searchBucket bs (val (xs ! (length xs - 1 - b))))"
    have h': "hist_ok ?bs' (live xs (Suc b))"
      using h node_at_live(2) [OF b] decrement_ok by simp
    then have c: "hist_ok (count_in ?bs' v) (\<lparr>timestamp = t, val = v\<rparr> # live xs (Suc b))"
      by (rule count_in_ok)
    have "bound_ok (\<lparr>timestamp = t, val = v\<rparr> # xs) (prev_of xs b) (count_in ?bs' v)"
    proof (cases "Suc b < length xs")
      case True
      then show ?thesis using c by (simp add: bound_ok_def prev_of_def live_Cons)
    next
      case False
      then have "live xs (Suc b) = []" using b by (simp add: live_def)
      then show ?thesis using c False by (simp add: bound_ok_def prev_of_def)
    qed
    then show ?thesis using clean_retire [OF b True] by simp
  qed
qed

lemma subsequent_sample_ok:
  assumes "entity_ok mk" and "subsequent_sample t v mk = Inr mk'"
  shows "entity_ok mk'" and "sValues mk' = \<lparr>timestamp = t, val = v\<rparr> # sValues mk"
proof -
  obtain bm where bm: "lastMID_TERM mk = Some bm"
    using assms(2) by (cases "lastMID_TERM mk") (simp_all add: subsequent_sample_def clean_NULL)
  obtain lm hm where m: "clean t MID_TERM (sValues mk) (Some bm) (tiedbucketsMID_TERM mk) = Inr (lm, hm)"
    "bound_ok (\<lparr>timestamp = t, val = v\<rparr> # sValues mk) lm (count_in hm v)"
    using clean_ok [of "sValues mk" bm "tiedbucketsMID_TERM mk" t MID_TERM v] assms(1) bm
    by (auto simp: entity_ok_def)
  obtain bsh where bsh: "lastSHORT_TERM mk = Some bsh"
    using assms(2) m(1) bm
    by (cases "lastSHORT_TERM mk") (simp_all add: subsequent_sample_def clean_NULL)
  obtain ls hs where s: "clean t SHORT_TERM (sValues mk) (Some bsh) (tiedbucketsSHORT_TERM mk) = Inr (ls, hs)"
    "bound_ok (\<lparr>timestamp = t, val = v\<rparr> # sValues mk) ls (count_in hs v)"
    using clean_ok [of "sValues mk" bsh "tiedbucketsSHORT_TERM mk" t SHORT_TERM v] assms(1) bsh
    by (auto simp: entity_ok_def)
  have mk': "mk' = mk\<lparr>sValues := \<lparr>timestamp = t, val = v\<rparr> # sValues mk,
                       lastMID_TERM := lm,
                       lastSHORT_TERM := ls,
                       tiedbucketsTotal := count_in (tiedbucketsTotal mk) v,
                       tiedbucketsMID_TERM := count_in hm v,
                       tiedbucketsSHORT_TERM := count_in hs v\<rparr>"
    using assms(2) m(1) s(1) bm bsh by (simp add: subsequent_sample_def)
  show "sValues mk' = \<lparr>timestamp = t, val = v\<rparr> # sValues mk"
    by (simp add: mk')
  have "hist_ok (count_in (tiedbucketsTotal mk) v) (\<lparr>timestamp = t, val = v\<rparr> # sValues mk)"
    using assms(1) by (intro count_in_ok) (simp add: entity_ok_def)
  then show "entity_ok mk'"
    using m(2) s(2) by (simp add: mk' entity_ok_def)
qed

lemma first_sample_ok: "entity_ok (first_sample nm t v)"
  by (simp add: entity_ok_def first_sample_def bound_ok_def live_def hist_ok_first)

lemma feed_ok:
  assumes "entity_ok mk" and "feed mk samples = Inr mk'"
  shows "entity_ok mk' \<and> sValues mk' = rev (map node_of samples) @ sValues mk"
  using assms
proof (induction samples arbitrary: mk)
  case Nil
  then show ?case by simp
next
  case (Cons p samples)
  obtain t v where p: "p = (t, v)" by (cases p)
  obtain mk1 where mk1: "subsequent_sample t v mk = Inr mk1" "feed mk1 samples = Inr mk'"
    using Cons.prems(2) by (auto simp: p split: sum.splits)
  note ok = subsequent_sample_ok [OF Cons.prems(1) mk1(1)]
  show ?case
    using Cons.IH [OF ok(1) mk1(2)] ok(2) by (simp add: p node_of_def)
qed

lemma stamped_Cons:
  assumes "stamped t d xs"
  shows "stamped (t + d) d (\<lparr>timestamp = t + d, val = v\<rparr> # xs)"
  unfolding stamped_def
proof (intro allI impI)
  fix i assume i: "i < length (\<lparr>timestamp = t + d, val = v\<rparr> # xs)"
  show "timestamp ((\<lparr>timestamp = t + d, val = v\<rparr> # xs) ! i) = t + d - int i * d"
  proof (cases i)
    case 0
    then show ?thesis by simp
  next
    case (Suc j)
    then have "timestamp (xs ! j) = t - int j * d"
      using assms i by (simp add: stamped_def)
    then show ?thesis using Suc by (simp add: algebra_simps)
  qed
qed

lemma pace_mono: "0 \<le> d \<Longrightarrow> i \<le> j \<Longrightarrow> int i * d \<le> int j * d"
  by (simp add: mult_right_mono)

lemma window_ok_keep:
  assumes "0 \<le> d" and "window_ok d w n b" and "int (n - b) * d \<le> w"
  shows "window_ok d w (Suc n) b"
  unfolding window_ok_def
proof (intro conjI allI impI)
  show "b < Suc n" using assms(2) by (simp add: window_ok_def)
next
  fix i assume i: "i < Suc n"
  have b: "b < n" and w: "\<And>k. k < n \<Longrightarrow> int k * d \<le> w \<longleftrightarrow> k < n - b"
    using assms(2) by (simp_all add: window_ok_def)
  show "int i * d \<le> w \<longleftrightarrow> i < Suc n - b"
  proof (cases "i \<le> n - b")
    case True
    then have "int i * d \<le> int (n - b) * d" using assms(1) by (rule pace_mono [rotated])
    then show ?thesis using assms(3) True b by simp
  next
    case False
    then obtain j where j: "i = Suc j" "n - b \<le> j" "j < n"
      using i by (cases i) auto
    then have "\<not> int j * d \<le> w" using w [of j] by simp
    moreover have "int j * d \<le> int i * d" using assms(1) j(1) by (intro pace_mono) simp_all
    ultimately show ?thesis using False by simp
  qed
qed

lemma window_ok_retire:
  assumes "0 \<le> d" and "d \<le> w" and "window_ok d w n b" and "w < int (n - b) * d"
  shows "Suc b < n" and "window_ok d w (Suc n) (Suc b)"
proof -
  have b: "b < n" and w: "\<And>k. k < n \<Longrightarrow> int k * d \<le> w \<longleftrightarrow> k < n - b"
    using assms(3) by (simp_all add: window_ok_def)
  show sb: "Suc b < n"
  proof (rule ccontr)
    assume "\<not> Suc b < n"
    then have "n - b = 1" using b by simp
    then show False using assms(2,4) by simp
  qed
  show "window_ok d w (Suc n) (Suc b)"
    unfolding window_ok_def
  proof (intro conjI allI impI)
    show "Suc b < Suc n" using b by simp
  next
    fix i assume i: "i < Suc n"
    show "int i * d \<le> w \<longleftrightarrow> i < Suc n - Suc b"
    proof (cases "i < n")
      case True
      then show ?thesis using w [of i] by simp
    next
      case False
      then have "i = n" using i by simp
      then have "int (n - b) * d \<le> int i * d" using assms(1) by (intro pace_mono) simp_all
      then show ?thesis using assms(4) \<open>i = n\<close> by simp
    qed
  qed
qed

lemma clean_paced:
  assumes "0 \<le> d" and "d \<le> w" and "stamped t d xs" and "window_ok d w (length xs) b"
  shows "\<exists>b' bs'. clean (t + d) w xs (Some b) bs = Inr (Some b', bs') \<and>
           window_ok d w (Suc (length xs)) b'"
proof -
  have b: "b < length xs" using assms(4) by (simp add: window_ok_def)
  define k where "k = int (length xs - 1 - b)"
  define ts where "ts = timestamp (xs ! (length xs - 1 - b))"
  have e: "ts = t - k * d"
    using assms(3) b by (simp add: stamped_def k_def ts_def)
  have "int (length xs - b) = k + 1"
    using b by (simp add: k_def)
  then have "int (length xs - b) * d = k * d + d"
    by (simp add: algebra_simps)
  then have "t + d - w > ts \<longleftrightarrow> w < int (length xs - b) * d"
    unfolding e by linarith
  then have ts: "t + d - w > timestamp (xs ! (length xs - 1 - b)) \<longleftrightarrow>
      w < int (length xs - b) * d"
    by (simp add: ts_def)
  show ?thesis
  proof (cases "w < int (length xs - b) * d")
    case True
    note r = window_ok_retire [OF assms(1,2,4) True]
    have "clean (t + d) w xs (Some b) bs =
        Inr (Some (Suc b), decrement bs (searchBucket bs (val (xs ! (length xs - 1 - b)))))"
      using clean_retire [OF b, of "t + d" w bs] ts True r(1) by (simp add: prev_of_def)
    then show ?thesis using r(2) by simp
  next
    case False
    then have "window_ok d w (Suc (length xs)) b"
      using window_ok_keep [OF assms(1,4)] by simp
    moreover have "clean (t + d) w xs (Some b) bs = Inr (Some b, bs)"
      using clean_keep [OF b, of "t + d" w bs] ts False by simp
    ultimately show ?thesis by simp
  qed
qed

lemma first_sample_paced: "0 \<le> d \<Longrightarrow> paced_ok t d (first_sample nm t v)"
  by (simp add: paced_ok_def first_sample_ok)
     (simp add: first_sample_def stamped_def window_ok_def MID_TERM_def SHORT_TERM_def)

lemma subsequent_sample_paced:
  assumes "0 \<le> d" and "d \<le> SHORT_TERM" and "paced_ok t d mk"
  shows "\<exists>mk'. subsequent_sample (t + d) v mk = Inr mk' \<and> paced_ok (t + d) d mk'"
proof -
  have dm: "d \<le> MID_TERM" using assms(2) by (simp add: MID_TERM_def SHORT_TERM_def)
  obtain bm where bm: "lastMID_TERM mk = Some bm"
    "window_ok d MID_TERM (length (sValues mk)) bm"
    using assms(3) by (auto simp: paced_ok_def)
  obtain bsh where bsh: "lastSHORT_TERM mk = Some bsh"
    "window_ok d SHORT_TERM (length (sValues mk)) bsh"
    using assms(3) by (auto simp: paced_ok_def)
  have st: "stamped t d (sValues mk)" and ok: "entity_ok mk"
    using assms(3) by (simp_all add: paced_ok_def)
  obtain bm' hm where m: "clean (t + d) MID_TERM (sValues mk) (Some bm) (tiedbucketsMID_TERM mk)
      = Inr (Some bm', hm)" "window_ok d MID_TERM (Suc (length (sValues mk))) bm'"
    using clean_paced [OF assms(1) dm st bm(2)] by blast
  obtain bsh' hs where s: "clean (t + d) SHORT_TERM (sValues mk) (Some bsh) (tiedbucketsSHORT_TERM mk)
      = Inr (Some bsh', hs)" "window_ok d SHORT_TERM (Suc (length (sValues mk))) bsh'"
    using clean_paced [OF assms(1,2) st bsh(2)] by blast
  define mk' where "mk' = mk\<lparr>sValues := \<lparr>timestamp = t + d, val = v\<rparr> # sValues mk,
                       lastMID_TERM := Some bm',
                       lastSHORT_TERM := Some bsh',
                       tiedbucketsTotal := count_in (tiedbucketsTotal mk) v,
                       tiedbucketsMID_TERM := count_in hm v,
                       tiedbucketsSHORT_TERM := count_in hs v\<rparr>"
  have r: "subsequent_sample (t + d) v mk = Inr mk'"
    using m(1) s(1) bm(1) bsh(1) by (simp add: subsequent_sample_def mk'_def)
  have "entity_ok mk'" by (rule subsequent_sample_ok(1) [OF ok r])
  moreover have "stamped (t + d) d (sValues mk')"
    using stamped_Cons [OF st] by (simp add: mk'_def)
  ultimately have "paced_ok (t + d) d mk'"
    using m(2) s(2) by (simp add: paced_ok_def) (simp add: mk'_def)
  then show ?thesis using r by blast
qed

lemma length_paced [simp]: "length (paced t d vs) = length vs"
  by (induction vs arbitrary: t) simp_all

lemma feed_paced:
  assumes "0 \<le> d" and "d \<le> SHORT_TERM" and "paced_ok t d mk"
  shows "\<exists>mk'. feed mk (paced (t + d) d vs) = Inr mk' \<and>
           paced_ok (t + int (length vs) * d) d mk'"
  using assms(3)
proof (induction vs arbitrary: t mk)
  case Nil
  then show ?case by simp
next
  case (Cons v vs)
  obtain mk1 where mk1: "subsequent_sample (t + d) v mk = Inr mk1" "paced_ok (t + d) d mk1"
    using subsequent_sample_paced [OF assms(1,2) Cons.prems] by blast
  obtain mk' where "feed mk1 (paced (t + d + d) d vs) = Inr mk'"
    "paced_ok (t + d + int (length vs) * d) d mk'"
    using Cons.IH [OF mk1(2)] by blast
  then show ?case using mk1(1) by (simp add: algebra_simps)
qed

lemma every_cycle_paced:
  assumes "0 \<le> d" and "d \<le> SHORT_TERM"
  shows "\<exists>mk. every_cycle nm t d v vs = Inr mk \<and> paced_ok (t + int (length vs) * d) d mk"
  unfolding every_cycle_def
  using feed_paced [OF assms first_sample_paced [OF assms(1)]] by blast

lemma filter_prefix:
  assumes "k \<le> length xs" and "\<forall>i < length xs. P (xs ! i) \<longleftrightarrow> i < k"
  shows "filter P xs = take k xs"
proof -
  have "filter P (take k xs) = take k xs"
    using assms by (intro filter_True) (auto simp: in_set_conv_nth)
  moreover have "filter P (drop k xs) = []"
    using assms by (intro filter_False) (auto simp: in_set_conv_nth)
  moreover have "filter P xs = filter P (take k xs) @ filter P (drop k xs)"
    by (metis append_take_drop_id filter_append)
  ultimately show ?thesis by simp
qed

lemma paced_in_window:
  assumes "stamped t d xs" and "window_ok d w (length xs) b" and "i < length xs"
  shows "in_window t w (xs ! i) \<longleftrightarrow> i < length xs - b"
proof -
  have "timestamp (xs ! i) = t - int i * d"
    using assms(1,3) by (simp add: stamped_def)
  then have "in_window t w (xs ! i) \<longleftrightarrow> int i * d \<le> w"
    by (simp add: in_window_def)
  then show ?thesis using assms(2,3) by (simp add: window_ok_def)
qed

lemma paced_live:
  assumes "stamped t d xs" and "window_ok d w (length xs) b"
  shows "filter (in_window t w) xs = live xs b"
  unfolding live_def
  using paced_in_window [OF assms] by (intro filter_prefix) simp_all

lemma every_cycle_series:
  assumes "every_cycle nm t d v vs = Inr mk"
  shows "map val (sValues mk) = rev (v # vs)"
proof -
  have "sValues mk = rev (map node_of (paced (t + d) d vs)) @ [\<lparr>timestamp = t, val = v\<rparr>]"
    using feed_ok [OF first_sample_ok, of nm t v "paced (t + d) d vs" mk] assms
    by (simp add: every_cycle_def first_sample_def)
  moreover have "map val (map node_of (paced u d vs)) = vs" for u
    by (induction vs arbitrary: u) (simp_all add: node_of_def)
  then have "map val (rev (map node_of (paced (t + d) d vs))) = rev vs"
    by (metis rev_map)
  ultimately show ?thesis by simp
qed

lemma paced_ok_sums:
  assumes "paced_ok t d mk"
  shows "(\<Sum>b\<leftarrow>tiedbucketsTotal mk. tied b) = int (length (sValues mk))"
    and "(\<Sum>b\<leftarrow>tiedbucketsMID_TERM mk. tied b) =
           int (length (filter (in_window t MID_TERM) (sValues mk)))"
    and "(\<Sum>b\<leftarrow>tiedbucketsSHORT_TERM mk. tied b) =
           int (length (filter (in_window t SHORT_TERM) (sValues mk)))"
proof -
  have ok: "entity_ok mk" and st: "stamped t d (sValues mk)"
    using assms by (simp_all add: paced_ok_def)
  show "(\<Sum>b\<leftarrow>tiedbucketsTotal mk. tied b) = int (length (sValues mk))"
    using ok by (intro hist_ok_sum) (simp add: entity_ok_def)
  obtain bm where bm: "lastMID_TERM mk = Some bm"
    "window_ok d MID_TERM (length (sValues mk)) bm"
    using assms by (auto simp: paced_ok_def)
  have "hist_ok (tiedbucketsMID_TERM mk) (live (sValues mk) bm)"
    using ok bm(1) by (simp add: entity_ok_def bound_ok_def)
  then show "(\<Sum>b\<leftarrow>tiedbucketsMID_TERM mk. tied b) =
           int (length (filter (in_window t MID_TERM) (sValues mk)))"
    unfolding paced_live [OF st bm(2)] by (rule hist_ok_sum)
  obtain bs where bs: "lastSHORT_TERM mk = Some bs"
    "window_ok d SHORT_TERM (length (sValues mk)) bs"
    using assms by (auto simp: paced_ok_def)
  have "hist_ok (tiedbucketsSHORT_TERM mk) (live (sValues mk) bs)"
    using ok bs(1) by (simp add: entity_ok_def bound_ok_def)
  then show "(\<Sum>b\<leftarrow>tiedbucketsSHORT_TERM mk. tied b) =
           int (length (filter (in_window t SHORT_TERM) (sValues mk)))"
    unfolding paced_live [OF st bs(2)] by (rule hist_ok_sum)
qed

lemma mann_kendall_counts:
  "n_count (total_of (mann_kendall t mk)) = int (length (sValues mk))"
  "n_count (mid_of (mann_kendall t mk)) = int (length (filter (in_window t MID_TERM) (sValues mk)))"
  "n_count (short_of (mann_kendall t mk)) = int (length (filter (in_window t SHORT_TERM) (sValues mk)))"
  by (simp_all add: mann_kendall_def Let_def total_of_def mid_of_def short_of_def horizon_of_def
      outer_loop_counterTotal outer_loop_counterMID outer_loop_counterSHORT scan0_def)

lemma paced_tracks:
  assumes "0 \<le> d" and "stamped t d xs" and "window_ok d w (length xs) b"
    and "hist_ok bs (live xs b)"
  shows "tracks t w xs b bs"
proof -
  have b: "b < length xs" using assms(3) by (simp add: window_ok_def)
  note iw = paced_in_window [OF assms(2,3)]
  have at: "node_at xs k = Some (xs ! (length xs - 1 - k))" if "k < length xs" for k
    using that by (simp add: node_at_def)
  define nd where "nd = xs ! (length xs - 1 - b)"
  have 1: "node_at xs b = Some nd" using at [OF b] by (simp add: nd_def)
  have 2: "in_window t w nd"
    using iw [of "length xs - 1 - b"] b by (simp add: nd_def)
  have 3: "\<forall>x \<in> set xs. in_window t w x \<longrightarrow> timestamp nd \<le> timestamp x"
  proof (intro ballI impI)
    fix x assume x: "x \<in> set xs" "in_window t w x"
    obtain i where i: "i < length xs" "x = xs ! i"
      using x(1) unfolding in_set_conv_nth by blast
    have "i < length xs - b" using iw [OF i(1)] x(2) i(2) by simp
    then have "i \<le> length xs - 1 - b" by simp
    then have "int i * d \<le> int (length xs - 1 - b) * d"
      using assms(1) by (intro pace_mono)
    moreover have "timestamp (xs ! i) = t - int i * d"
      using assms(2) i(1) by (simp add: stamped_def)
    moreover have "timestamp nd = t - int (length xs - 1 - b) * d"
      using assms(2) b by (simp add: stamped_def nd_def)
    ultimately show "timestamp nd \<le> timestamp x" using i(2) by simp
  qed
  have 4: "\<forall>k < length xs. b < k \<longrightarrow> (\<exists>x. node_at xs k = Some x \<and> in_window t w x)"
  proof (intro allI impI)
    fix k assume k: "k < length xs" "b < k"
    have "length xs - 1 - k < length xs - b" using k by simp
    then have "in_window t w (xs ! (length xs - 1 - k))"
      using iw [of "length xs - 1 - k"] k(1) by simp
    then show "\<exists>x. node_at xs k = Some x \<and> in_window t w x"
      using at [OF k(1)] by simp
  qed
  have 5: "\<forall>k < b. \<exists>x. node_at xs k = Some x \<and> \<not> in_window t w x"
  proof (intro allI impI)
    fix k assume k: "k < b"
    have kl: "k < length xs" using k b by simp
    have "\<not> length xs - 1 - k < length xs - b" using k b by simp
    then have "\<not> in_window t w (xs ! (length xs - 1 - k))"
      using iw [of "length xs - 1 - k"] kl by simp
    then show "\<exists>x. node_at xs k = Some x \<and> \<not> in_window t w x"
      using at [OF kl] by simp
  qed
  show ?thesis
    unfolding tracks_def using 1 2 3 4 5 assms(4) by (intro conjI exI [of _ nd]) simp_all
qed

lemma horizons_mann_kendall:
  "h \<in> set (horizons (mann_kendall t mk)) \<Longrightarrow> \<exists>a c bs. h = horizon_of a c bs"
  by (auto simp: horizons_def mann_kendall_def Let_def total_of_def mid_of_def short_of_def)

lemma trend_YES_iff: "trend z = ''YES'' \<longleftrightarrow> d_gt (fabs z) criticalValue \<and> d_gt z 0"
  by (simp add: trend_def)

lemma trend_cases: "trend z = ''YES'' \<or> trend z = ''NO''"
  by (simp add: trend_def)

lemma trend_decrease: "d_lt z (- criticalValue) \<Longrightarrow> trend z = ''NO''"
  by (cases z) (auto simp: trend_def criticalValue_def)

lemma d_div_sqrt_pos: "0 < v \<Longrightarrow> d_div a (d_sqrt v) = Fin (a / sqrt v)"
  by simp

lemma zscore_cases:
  "(1 < c \<and> 0 < a \<longrightarrow> zscore c a bs = d_div (real_of_int (a - 1)) (d_sqrt (varS c bs))) \<and>
   (1 < c \<and> a < 0 \<longrightarrow> zscore c a bs = d_div (real_of_int (a + 1)) (d_sqrt (varS c bs))) \<and>
   (1 < c \<and> a = 0 \<longrightarrow> zscore c a bs = Fin 0) \<and>
   (c \<le> 1 \<longrightarrow> zscore c a bs = Fin 0 \<and> trend (zscore c a bs) = ''NO'')"
  by (simp add: zscore_def trend_def criticalValue_def)

lemma zscore_real:
  "1 < c \<Longrightarrow> 0 < varS c bs \<Longrightarrow>
   zscore c a bs =
     Fin (if 0 < a then real_of_int (a - 1) / sqrt (varS c bs)
          else if a < 0 then real_of_int (a + 1) / sqrt (varS c bs) else 0)"
  by (simp add: zscore_def)

lemma outer_loop_first:
  "outer_loop t [\<lparr>timestamp = t, val = v\<rparr>] scan0 =
     \<lparr>accumTotal = 0, accumMID_TERM = 0, accumSHORT_TERM = 0,
      counterTotal = 1, counterMID_TERM = 1, counterSHORT_TERM = 1\<rparr>"
  by (simp add: scan0_def count_step_def MID_TERM_def SHORT_TERM_def)

lemma z_score_single:
  assumes "h \<in> set (horizons (mann_kendall ts (first_sample nm ts v)))"
  shows "n_count h = 1 \<and> Z h = Fin 0 \<and> flag h = ''NO''"
  using assms
  by (auto simp: trend_def criticalValue_def zscore_def horizons_def mann_kendall_def
      first_sample_def outer_loop_first total_of_def mid_of_def short_of_def horizon_of_def
      simp del: outer_loop.simps)

lemma z_score_horizon:
  assumes "h \<in> set (horizons (mann_kendall t mk))"
  shows "(1 < n_count h \<and> 0 < S_stat h \<longrightarrow>
         Z h = d_div (real_of_int (S_stat h - 1)) (d_sqrt (variance h))) \<and>
      (1 < n_count h \<and> S_stat h < 0 \<longrightarrow>
         Z h = d_div (real_of_int (S_stat h + 1)) (d_sqrt (variance h))) \<and>
      (1 < n_count h \<and> S_stat h = 0 \<longrightarrow> Z h = Fin 0) \<and>
      (1 < n_count h \<and> 0 < variance h \<longrightarrow>
         Z h = Fin (if 0 < S_stat h then real_of_int (S_stat h - 1) / sqrt (variance h)
                    else if S_stat h < 0 then real_of_int (S_stat h + 1) / sqrt (variance h)
                    else 0)) \<and>
      (n_count h \<le> 1 \<longrightarrow> Z h = Fin 0 \<and> flag h = ''NO'')"
proof -
  obtain a c bs where h: "h = horizon_of a c bs"
    using horizons_mann_kendall assms by blast
  have sel: "S_stat h = a" "n_count h = c" "variance h = varS c bs" "Z h = zscore c a bs"
    "flag h = trend (zscore c a bs)"
    by (simp_all add: h horizon_of_def)
  show ?thesis
    unfolding sel using zscore_cases [of c a bs] zscore_real [of c bs a] by blast
qed

lemmas run_defs = every_cycle_def first_sample_def subsequent_sample_def clean_def node_at_def
  prev_of_def decrement_def count_in_def MID_TERM_def SHORT_TERM_def

lemma run_600: "every_cycle ''kmalloc-64'' 0 600 100 [200] = Inr (after_two 600)"
  by (simp add: run_defs after_two_def)

lemma run_1000: "every_cycle ''kmalloc-64'' 0 1000 100 [200] = Inr (after_two 1000)"
  by (simp add: run_defs after_two_def)

lemma run_1000_crash: "every_cycle ''kmalloc-64'' 0 1000 100 [200, 300] = Inl NullDereference"
  by (simp add: run_defs)

lemma run_gap: "feed (first_sample ''kmalloc-64'' 0 100) [(600, 200), (2400, 300)] = Inr after_gap"
  by (simp add: run_defs after_gap_def)

lemma run_gap_step: "subsequent_sample 2400 300 (after_two 600) = Inr after_gap"
  by (simp add: run_defs after_gap_def after_two_def)

lemma run_eight:
  "every_cycle ''kmalloc-64'' 0 600 100 [200, 300, 400, 500, 600, 700, 800] = Inr after_eight"
  by (simp add: run_defs after_eight_def)

lemma clean_once:
  assumes "bound_ok xs (Some b) bs" and "clean t w xs (Some b) bs = Inr (b', bs')"
  shows "\<exists>nd. node_at xs b = Some nd \<and> retired_once t w xs b nd bs v b' (count_in bs' v)"
proof -
  have b: "b < length xs" and h: "hist_ok bs (live xs b)"
    using assms(1) by (simp_all add: bound_ok_def)
  define nd where "nd = xs ! (length xs - 1 - b)"
  have nd: "node_at xs b = Some nd"
    using b by (simp add: node_at_def nd_def)
  have "nd \<in> set (live xs b)"
    using node_at_live(2) [OF b] by (simp add: nd_def)
  then have "val nd \<in> bvalue ` set bs"
    using hist_okD(3) [OF h] by auto
  then have "decrement bs (searchBucket bs (val nd)) =
      map (\<lambda>c. if bvalue c = val nd then c\<lparr>tied := tied c - 1\<rparr> else c) bs"
    using hist_okD(1) [OF h] by (rule decrement_found [rotated])
  then have "retired_once t w xs b nd bs v b' (count_in bs' v)"
    using assms(2) nd by (auto simp: clean_def retired_once_def split: if_splits)
  then show ?thesis using nd by blast
qed

lemma subsequent_sample_cases:
  assumes "subsequent_sample t v mk = Inr mk'"
  shows "\<exists>bm bs lm hm ls hs.
           lastMID_TERM mk = Some bm \<and> lastSHORT_TERM mk = Some bs \<and>
           clean t MID_TERM (sValues mk) (Some bm) (tiedbucketsMID_TERM mk) = Inr (lm, hm) \<and>
           clean t SHORT_TERM (sValues mk) (Some bs) (tiedbucketsSHORT_TERM mk) = Inr (ls, hs) \<and>
           lastMID_TERM mk' = lm \<and> lastSHORT_TERM mk' = ls \<and>
           tiedbucketsTotal mk' = count_in (tiedbucketsTotal mk) v \<and>
           tiedbucketsMID_TERM mk' = count_in hm v \<and>
           tiedbucketsSHORT_TERM mk' = count_in hs v"
proof -
  obtain bm where bm: "lastMID_TERM mk = Some bm"
    using assms by (cases "lastMID_TERM mk") (simp_all add: subsequent_sample_def clean_NULL)
  obtain lm hm where m: "clean t MID_TERM (sValues mk) (Some bm) (tiedbucketsMID_TERM mk) = Inr (lm, hm)"
    using assms bm
    by (cases "clean t MID_TERM (sValues mk) (Some bm) (tiedbucketsMID_TERM mk)")
       (auto simp: subsequent_sample_def)
  obtain bs where bs: "lastSHORT_TERM mk = Some bs"
    using assms bm m
    by (cases "lastSHORT_TERM mk") (simp_all add: subsequent_sample_def clean_NULL)
  obtain ls hs where s: "clean t SHORT_TERM (sValues mk) (Some bs) (tiedbucketsSHORT_TERM mk) = Inr (ls, hs)"
    using assms bm m bs
    by (cases "clean t SHORT_TERM (sValues mk) (Some bs) (tiedbucketsSHORT_TERM mk)")
       (auto simp: subsequent_sample_def)
  have "mk' = mk\<lparr>sValues := \<lparr>timestamp = t, val = v\<rparr> # sValues mk,
                       lastMID_TERM := lm,
                       lastSHORT_TERM := ls,
                       tiedbucketsTotal := count_in (tiedbucketsTotal mk) v,
                       tiedbucketsMID_TERM := count_in hm v,
                       tiedbucketsSHORT_TERM := count_in hs v\<rparr>"
    using assms bm m bs s by (simp add: subsequent_sample_def)
  then show ?thesis using bm m bs s by simp
qed

lemma two_samples_1000:
  "every_cycle nm t0 1000 v0 [v1] =
     Inr \<lparr>name = nm,
          sValues = [\<lparr>timestamp = t0 + 1000, val = v1\<rparr>, \<lparr>timestamp = t0, val = v0\<rparr>],
          lastMID_TERM = Some 0,
          lastSHORT_TERM = None,
          tiedbucketsTotal = count_in [\<lparr>bvalue = v0, tied = 1\<rparr>] v1,
          tiedbucketsMID_TERM = count_in [\<lparr>bvalue = v0, tied = 1\<rparr>] v1,
          tiedbucketsSHORT_TERM = count_in [\<lparr>bvalue = v0, tied = 1 - 1\<rparr>] v1\<rparr>"
  by (simp add: every_cycle_def first_sample_def subsequent_sample_def clean_def node_at_def
      prev_of_def decrement_def MID_TERM_def SHORT_TERM_def)

lemma S_pairs_decreasing:
  assumes "sorted_wrt (\<lambda>a b. val a > val b) xs"
  shows "2 * S_pairs xs = int (length xs) * (int (length xs) - 1)"
  using assms
proof (induction xs)
  case Nil
  then show ?case by (simp add: S_pairs_def)
next
  case (Cons a rest)
  have "map (\<lambda>b. sgn (val a - val b)) rest = map (\<lambda>b. 1) rest"
    using Cons.prems by (intro map_cong) auto
  then have "(\<Sum>b\<leftarrow>rest. sgn (val a - val b)) = (\<Sum>b\<leftarrow>rest. 1)"
    by (simp only:)
  then have "(\<Sum>b\<leftarrow>rest. sgn (val a - val b)) = int (length rest)"
    by (simp only: sum_list_triv mult_1_right of_nat_id)
  moreover have "2 * S_pairs rest = int (length rest) * (int (length rest) - 1)"
    using Cons by simp
  ultimately show ?case
    by (simp add: S_pairs_def pair_sum_Cons algebra_simps)
qed

lemma pair_sum_cong:
  assumes "\<And>a b. a \<in> set xs \<Longrightarrow> b \<in> set xs \<Longrightarrow> f a b = g a b"
  shows "pair_sum f xs = pair_sum g xs"
  using assms
proof (induction xs)
  case Nil
  then show ?case by simp
next
  case (Cons a rest)
  have "map (f a) rest = map (g a) rest"
    using Cons.prems by (intro map_cong) auto
  moreover have "pair_sum f rest = pair_sum g rest"
    using Cons by simp
  ultimately show ?case by (simp only: pair_sum_Cons)
qed

lemma S_window_all:
  assumes "\<forall>x \<in> set xs. in_window t w x"
  shows "S_window t w xs = S_pairs xs"
  unfolding S_window_def S_pairs_def using assms by (intro pair_sum_cong) simp

lemma bvalue_list_update:
  "i < length bs \<Longrightarrow> map bvalue (bs[i := (bs ! i)\<lparr>tied := k\<rparr>]) = map bvalue bs"
  by (simp add: map_update list_update_same_conv)

lemma bvalue_count_in: "set (map bvalue (count_in bs v)) = insert v (set (map bvalue bs))"
proof (cases "searchBucket bs v")
  case None
  then show ?thesis by (simp add: count_in_def)
next
  case (Some i)
  then have "i < length bs" "bvalue (bs ! i) = v" using searchBucket_Some by auto
  then have "v \<in> set (map bvalue bs)" by (metis length_map nth_map nth_mem)
  then show ?thesis
    using Some \<open>i < length bs\<close> by (auto simp: count_in_def bvalue_list_update)
qed

lemma bvalue_decrement: "map bvalue (decrement bs (searchBucket bs v)) = map bvalue bs"
proof (cases "searchBucket bs v")
  case None
  then show ?thesis by (simp add: decrement_def)
next
  case (Some i)
  then have "i < length bs" using searchBucket_Some by auto
  then show ?thesis using Some by (simp add: decrement_def bvalue_list_update)
qed

lemma clean_buckets_from:
  assumes "clean t w xs boundary bs = Inr (b', bs')"
  shows "map bvalue bs' = map bvalue bs"
  using assms
  by (auto simp: clean_def bvalue_decrement split: option.splits if_splits)

lemma buckets_from_step:
  assumes "buckets_from bs xs" and "map bvalue bs' = map bvalue bs"
  shows "buckets_from (count_in bs' v) (\<lparr>timestamp = t, val = v\<rparr> # xs)"
  using assms unfolding buckets_from_def bvalue_count_in by auto

lemma subsequent_sample_from:
  assumes "subsequent_sample t v mk = Inr mk'"
    and "buckets_from (tiedbucketsTotal mk) (sValues mk)"
    and "buckets_from (tiedbucketsMID_TERM mk) (sValues mk)"
    and "buckets_from (tiedbucketsSHORT_TERM mk) (sValues mk)"
  shows "buckets_from (tiedbucketsTotal mk') (sValues mk') \<and>
         buckets_from (tiedbucketsMID_TERM mk') (sValues mk') \<and>
         buckets_from (tiedbucketsSHORT_TERM mk') (sValues mk')"
proof -
  obtain bm bs lm hm ls hs where c:
    "clean t MID_TERM (sValues mk) (Some bm) (tiedbucketsMID_TERM mk) = Inr (lm, hm)"
    "clean t SHORT_TERM (sValues mk) (Some bs) (tiedbucketsSHORT_TERM mk) = Inr (ls, hs)"
    "tiedbucketsTotal mk' = count_in (tiedbucketsTotal mk) v"
    "tiedbucketsMID_TERM mk' = count_in hm v"
    "tiedbucketsSHORT_TERM mk' = count_in hs v"
    using subsequent_sample_cases [OF assms(1)] by blast
  have x: "sValues mk' = \<lparr>timestamp = t, val = v\<rparr> # sValues mk"
    using assms(1) by (auto simp: subsequent_sample_def split: sum.splits)
  show ?thesis
    unfolding c(3,4,5) x
    using buckets_from_step [OF assms(2) refl]
      buckets_from_step [OF assms(3) clean_buckets_from [OF c(1)]]
      buckets_from_step [OF assms(4) clean_buckets_from [OF c(2)]]
    by simp
qed

lemma feed_from:
  assumes "feed mk samples = Inr mk'"
    and "buckets_from (tiedbucketsTotal mk) (sValues mk)"
    and "buckets_from (tiedbucketsMID_TERM mk) (sValues mk)"
    and "buckets_from (tiedbucketsSHORT_TERM mk) (sValues mk)"
  shows "buckets_from (tiedbucketsTotal mk') (sValues mk') \<and>
         buckets_from (tiedbucketsMID_TERM mk') (sValues mk') \<and>
         buckets_from (tiedbucketsSHORT_TERM mk') (sValues mk')"
  using assms
proof (induction samples arbitrary: mk)
  case Nil
  then show ?case by simp
next
  case (Cons p samples)
  obtain t v where p: "p = (t, v)" by (cases p)
  obtain mk1 where mk1: "subsequent_sample t v mk = Inr mk1" "feed mk1 samples = Inr mk'"
    using Cons.prems(1) by (auto simp: p split: sum.splits)
  have "buckets_from (tiedbucketsTotal mk1) (sValues mk1) \<and>
         buckets_from (tiedbucketsMID_TERM mk1) (sValues mk1) \<and>
         buckets_from (tiedbucketsSHORT_TERM mk1) (sValues mk1)"
    using subsequent_sample_from [OF mk1(1) Cons.prems(2,3,4)] .
  then show ?case using Cons.IH [OF mk1(2)] by blast
qed

lemma every_cycle_from:
  assumes "every_cycle nm t d v vs = Inr mk"
  shows "buckets_from (tiedbucketsTotal mk) (sValues mk) \<and>
         buckets_from (tiedbucketsMID_TERM mk) (sValues mk) \<and>
         buckets_from (tiedbucketsSHORT_TERM mk) (sValues mk)"
  using assms unfolding every_cycle_def
  by (rule feed_from) (simp_all add: first_sample_def buckets_from_def)

lemma distinct_tied_one:
  assumes "hist_ok bs xs" and "buckets_from bs xs" and "distinct (map val xs)" and "b \<in> set bs"
  shows "tied b = 1"
proof -
  have "bvalue b \<in> val ` set xs" using assms(2,4) by (auto simp: buckets_from_def)
  then obtain x where x: "x \<in> set xs" "val x = bvalue b" by auto
  have "length (filter (\<lambda>y. val y = bvalue b) xs) = 1"
  proof -
    have "filter (\<lambda>y. val y = bvalue b) xs = [x]"
      using assms(3) x
    proof (induction xs)
      case Nil
      then show ?case by simp
    next
      case (Cons a xs)
      show ?case
      proof (cases "a = x")
        case True
        then have "\<forall>y \<in> set xs. val y \<noteq> bvalue b"
          using Cons.prems by (auto simp: image_iff)
        then have "filter (\<lambda>y. val y = bvalue b) xs = []"
          by (simp add: filter_empty_conv)
        then show ?thesis using True Cons.prems by simp
      next
        case False
        then have "x \<in> set xs" using Cons.prems by simp
        moreover have "val a \<noteq> bvalue b"
          using Cons.prems \<open>x \<in> set xs\<close> by (auto simp: image_iff)
        ultimately show ?thesis using Cons by simp
      qed
    qed
    then show ?thesis by simp
  qed
  then show ?thesis
    using hist_okD(2) [OF assms(1)] assms(4) by (simp add: occurrences_def)
qed

lemma secondPartVariance_no_ties:
  "\<forall>b \<in> set bs. tied b \<le> 1 \<Longrightarrow> secondPartVariance bs = 0"
  by (induction bs) auto

lemma z_exceeds:
  assumes "0 < a" and "0 < v" and "0 < c" and "v * c\<^sup>2 < a\<^sup>2"
  shows "c < a / sqrt v"
proof -
  have "v < (a / c)\<^sup>2"
    using assms by (simp add: power_divide pos_less_divide_eq)
  moreover have "0 \<le> a / c" using assms by simp
  ultimately have "sqrt v < a / c" by (intro real_less_lsqrt) simp_all
  moreover have "0 < sqrt v" using assms(2) by simp
  ultimately show ?thesis
    using assms(3) by (simp add: pos_less_divide_eq mult.commute)
qed

lemma in_range_scan0: "in_range scan0"
  by (simp add: in_range_def scan0_def int32_def)

lemma mann_kendall_total:
  "total_of (mann_kendall t mk) =
     horizon_of (int32 (S_pairs (sValues mk))) (int (length (sValues mk))) (tiedbucketsTotal mk)"
  using outer_loop_accumTotal [OF in_range_scan0, of t "sValues mk"]
    outer_loop_counterTotal [of t "sValues mk" scan0]
  by (simp add: mann_kendall_def Let_def total_of_def) (simp add: scan0_def)

lemma mann_kendall_mid:
  "mid_of (mann_kendall t mk) =
     horizon_of (int32 (S_window t MID_TERM (sValues mk)))
       (int (length (filter (in_window t MID_TERM) (sValues mk)))) (tiedbucketsMID_TERM mk)"
  using outer_loop_accumMID [OF in_range_scan0, of t "sValues mk"]
    outer_loop_counterMID [of t "sValues mk" scan0]
  by (simp add: mann_kendall_def Let_def mid_of_def) (simp add: scan0_def)

lemma mann_kendall_short:
  "short_of (mann_kendall t mk) =
     horizon_of (int32 (S_window t SHORT_TERM (sValues mk)))
       (int (length (filter (in_window t SHORT_TERM) (sValues mk)))) (tiedbucketsSHORT_TERM mk)"
  using outer_loop_accumSHORT [OF in_range_scan0, of t "sValues mk"]
    outer_loop_counterSHORT [of t "sValues mk" scan0]
  by (simp add: mann_kendall_def Let_def short_of_def) (simp add: scan0_def)

lemma thirty_is_significant:
  assumes "\<forall>b \<in> set bs. tied b = 1"
  shows "d_gt (zscore 30 435 bs) criticalValue \<and> trend (zscore 30 435 bs) = ''YES''"
proof -
  have sp: "secondPartVariance bs = 0"
    using assms by (intro secondPartVariance_no_ties) simp
  have v: "varS 30 bs = 56550 / 18"
    by (simp add: varS_def firstPartVariance_def sp)
  have "(196 / 100 :: real) < 434 / sqrt (56550 / 18)"
    by (rule z_exceeds) (simp_all add: power2_eq_square)
  then have z: "zscore 30 435 bs = Fin (434 / sqrt (56550 / 18))"
    "criticalValue < 434 / sqrt (56550 / 18)"
    by (simp_all add: zscore_def v criticalValue_def)
  then have "0 < 434 / sqrt (56550 / 18)"
    by (simp add: criticalValue_def)
  then show ?thesis
    using z by (simp add: trend_def)
qed

lemma increasing_horizon:
  assumes "2 * S = k * (k - 1)" and "1 \<le> k" and "k \<le> 65536" and "\<forall>b \<in> set bs. tied b = 1"
  shows "increasing_stats k (horizon_of (int32 S) k bs) bs"
proof -
  have S: "S = k * (k - 1) div 2" using assms(1) by simp
  have "k * (k - 1) \<le> 65536 * 65535"
    using assms(2,3) by (intro mult_mono) simp_all
  moreover have "0 \<le> k * (k - 1)" using assms(2) by simp
  ultimately have "0 \<le> S" "S < 2147483648" using assms(1) by simp_all
  then have i: "int32 S = S" by (intro int32_id) simp_all
  have sp: "secondPartVariance bs = 0"
    using assms(4) by (intro secondPartVariance_no_ties) simp
  have v: "varS k bs = real_of_int (k * (k - 1) * (2 * k + 5)) / 18"
  proof (cases "1 < k")
    case True
    then show ?thesis by (simp add: varS_def firstPartVariance_def sp)
  next
    case False
    then have "k = 1" using assms(2) by simp
    then show ?thesis by (simp add: varS_def)
  qed
  have "k = 30 \<longrightarrow> d_gt (zscore k S bs) criticalValue \<and> trend (zscore k S bs) = ''YES''"
    using thirty_is_significant [OF assms(4)] S by auto
  then show ?thesis
    unfolding i increasing_stats_def horizon_of_def
    using assms(4) v S by simp
qed

lemma window_holds_all:
  assumes "window_ok d w n b" and "int (n - 1) * d \<le> w"
  shows "b = 0"
proof -
  have "b < n" and "\<forall>i < n. int i * d \<le> w \<longleftrightarrow> i < n - b"
    using assms(1) by (simp_all add: window_ok_def)
  then have "n - 1 < n - b" using assms(2) by (metis diff_less less_nat_zero_code not_gr_zero zero_less_one)
  then show ?thesis by simp
qed

lemma live_all: "live xs 0 = xs"
  by (simp add: live_def)

lemma increasing_values:
  assumes "every_cycle nm t d v vs = Inr mk" and "sorted_wrt (<) (v # vs)"
  shows "sorted_wrt (\<lambda>a b. val a > val b) (sValues mk)" and "distinct (map val (sValues mk))"
    and "int (length (sValues mk)) = int (length vs) + 1"
proof -
  note e = every_cycle_series [OF assms(1)]
  have "sorted_wrt (\<lambda>a b. a > b) (rev (v # vs))"
    using assms(2) unfolding sorted_wrt_rev by simp
  then have "sorted_wrt (\<lambda>a b. a > b) (map val (sValues mk))"
    by (simp only: e)
  then show "sorted_wrt (\<lambda>a b. val a > val b) (sValues mk)"
    by (simp add: sorted_wrt_map)
  have "distinct (v # vs)" using assms(2) strict_sorted_iff by blast
  then have "distinct (rev (v # vs))" by (simp only: distinct_rev)
  then show "distinct (map val (sValues mk))" by (simp only: e)
  have "length (map val (sValues mk)) = length (rev (v # vs))" by (simp only: e)
  then show "int (length (sValues mk)) = int (length vs) + 1" by simp
qed

lemma increasing_window:
  assumes "paced_ok t d mk" and "lastb = Some b" and "window_ok d w (length (sValues mk)) b"
    and "bound_ok (sValues mk) lastb bs" and "buckets_from bs (sValues mk)"
    and "sorted_wrt (\<lambda>a b. val a > val b) (sValues mk)" and "distinct (map val (sValues mk))"
    and "int (length (sValues mk) - 1) * d \<le> w"
    and "1 \<le> length (sValues mk)" and "length (sValues mk) \<le> 65536"
  shows "increasing_stats (int (length (sValues mk)))
           (horizon_of (int32 (S_window t w (sValues mk)))
              (int (length (filter (in_window t w) (sValues mk)))) bs) bs"
proof -
  have st: "stamped t d (sValues mk)" using assms(1) by (simp add: paced_ok_def)
  have b0: "b = 0" using window_holds_all [OF assms(3,8)] .
  have f: "filter (in_window t w) (sValues mk) = sValues mk"
    using paced_live [OF st assms(3)] by (simp add: b0 live_all)
  then have "\<forall>x \<in> set (sValues mk). in_window t w x"
    by (metis filter_id_conv)
  then have S: "S_window t w (sValues mk) = S_pairs (sValues mk)"
    by (rule S_window_all)
  have h: "hist_ok bs (sValues mk)"
    using assms(2,4) by (simp add: bound_ok_def b0 live_all)
  have "\<forall>c \<in> set bs. tied c = 1"
    using distinct_tied_one [OF h assms(5,7)] by blast
  then show ?thesis
    unfolding f S
    using S_pairs_decreasing [OF assms(6)] assms(9,10)
    by (intro increasing_horizon) simp_all
qed

lemma ramp_facts:
  "length ramp = 65536" "sorted_wrt (<) (1 # ramp)"
  by (simp_all add: ramp_def del: upto_rec_numeral)

lemma long_run_facts:
  "\<not> isl long_run"
  "length (sValues (projr long_run)) = 65537"
  "S_pairs (sValues (projr long_run)) = 2147516416"
  "total_of (mann_kendall 1966080 (projr long_run)) =
     horizon_of (- 2147450880) 65537 (tiedbucketsTotal (projr long_run))"
  "\<forall>b \<in> set (tiedbucketsTotal (projr long_run)). tied b = 1"
proof -
  have "(0::int) \<le> 30" "(30::int) \<le> SHORT_TERM" by (simp_all add: SHORT_TERM_def)
  then obtain mk where mk: "long_run = Inr mk" "paced_ok (0 + int (length ramp) * 30) 30 mk"
    unfolding long_run_def using every_cycle_paced by blast
  note inc = increasing_values [OF mk(1) [unfolded long_run_def] ramp_facts(2)]
  show "\<not> isl long_run" by (simp add: mk(1))
  have len: "int (length (sValues mk)) = 65537" using inc(3) by (simp add: ramp_facts(1))
  then show l: "length (sValues (projr long_run)) = 65537" by (simp add: mk(1))
  have "2 * S_pairs (sValues mk) = 65537 * 65536"
    using S_pairs_decreasing [OF inc(1)] len by simp
  then have S: "S_pairs (sValues mk) = 2147516416" by simp
  then show "S_pairs (sValues (projr long_run)) = 2147516416" by (simp add: mk(1))
  show "total_of (mann_kendall 1966080 (projr long_run)) =
     horizon_of (- 2147450880) 65537 (tiedbucketsTotal (projr long_run))"
    unfolding mann_kendall_total by (simp add: mk(1) S len) (simp add: int32_def)
  have "hist_ok (tiedbucketsTotal mk) (sValues mk)"
    using mk(2) by (simp add: paced_ok_def entity_ok_def)
  moreover have "buckets_from (tiedbucketsTotal mk) (sValues mk)"
    using every_cycle_from [OF mk(1) [unfolded long_run_def]] by simp
  ultimately have "\<forall>b \<in> set (tiedbucketsTotal mk). tied b = 1"
    using distinct_tied_one inc(2) by blast
  then show "\<forall>b \<in> set (tiedbucketsTotal (projr long_run)). tied b = 1" by (simp add: mk(1))
qed

lemma negative_is_NO:
  assumes "a < 0" and "1 < c" and "0 < varS c bs"
  shows "trend (zscore c a bs) = ''NO''"
proof -
  have "a + 1 \<le> 0" using assms(1) by simp
  then have "real_of_int (a + 1) / sqrt (varS c bs) \<le> 0"
    using assms(3) by (simp add: divide_nonpos_pos)
  moreover have "zscore c a bs = Fin (real_of_int (a + 1) / sqrt (varS c bs))"
    using assms by (simp add: zscore_def)
  ultimately show ?thesis by (simp add: trend_def)
qed

lemma count_in_same: "count_in [\<lparr>bvalue = v, tied = c\<rparr>] v = [\<lparr>bvalue = v, tied = c + 1\<rparr>]"
  by (simp add: count_in_def)

lemma feed_constant_total:
  assumes "feed mk (paced t d (replicate n v)) = Inr mk'"
    and "tiedbucketsTotal mk = [\<lparr>bvalue = v, tied = c\<rparr>]"
  shows "tiedbucketsTotal mk' = [\<lparr>bvalue = v, tied = c + int n\<rparr>]"
  using assms
proof (induction n arbitrary: mk t c)
  case 0
  then show ?case by simp
next
  case (Suc n)
  obtain mk1 where mk1: "subsequent_sample t v mk = Inr mk1"
    "feed mk1 (paced (t + d) d (replicate n v)) = Inr mk'"
    using Suc.prems(1) by (auto split: sum.splits)
  have "tiedbucketsTotal mk1 = [\<lparr>bvalue = v, tied = c + 1\<rparr>]"
    using subsequent_sample_cases [OF mk1(1)] Suc.prems(2) by (auto simp: count_in_same)
  from Suc.IH [OF mk1(2) this] show ?case by (simp add: algebra_simps)
qed

lemma constant_run_facts:
  "\<not> isl constant_run"
  "length (sValues (projr constant_run)) = 1024"
  "tiedbucketsTotal (projr constant_run) = [\<lparr>bvalue = 4096, tied = 1024\<rparr>]"
proof -
  have "(0::int) \<le> 30" "(30::int) \<le> SHORT_TERM" by (simp_all add: SHORT_TERM_def)
  then obtain mk where mk: "constant_run = Inr mk"
    unfolding constant_run_def using every_cycle_paced by blast
  show "\<not> isl constant_run" by (simp add: mk)
  have "length (map val (sValues mk)) = length (rev (4096 # steady))"
    using every_cycle_series [OF mk [unfolded constant_run_def]] by (simp only:)
  moreover have "length steady = 1023" unfolding steady_def by (simp only: length_replicate)
  ultimately show "length (sValues (projr constant_run)) = 1024" by (simp add: mk)
  have "tiedbucketsTotal mk = [\<lparr>bvalue = 4096, tied = 1 + int 1023\<rparr>]"
    using mk unfolding constant_run_def every_cycle_def steady_def
    by (rule feed_constant_total) (simp add: first_sample_def)
  then show "tiedbucketsTotal (projr constant_run) = [\<lparr>bvalue = 4096, tied = 1024\<rparr>]"
    by (simp add: mk)
qed

lemma variance_below_1024_ties:
  assumes "\<forall>b \<in> set bs. tied b < 1024"
  shows "varS n bs = variance_spec n bs"
proof -
  have "secondPartVariance bs = tie_term bs"
    using assms
  proof (induction bs)
    case Nil
    then show ?case by (simp add: tie_term_def)
  next
    case (Cons b bs)
    have "int32 (tied b * (tied b - 1) * (2 * tied b + 5)) = tied b * (tied b - 1) * (2 * tied b + 5)"
      if "1 < tied b"
    proof -
      have t: "tied b \<le> 1023" using Cons.prems by simp
      have "tied b * (tied b - 1) \<le> 1023 * 1022"
        using that t by (intro mult_mono) simp_all
      moreover have "0 \<le> tied b * (tied b - 1)" using that by simp
      ultimately have "tied b * (tied b - 1) * (2 * tied b + 5) \<le> (1023 * 1022) * 2051"
        using that t by (intro mult_mono) simp_all
      moreover have "0 \<le> tied b * (tied b - 1) * (2 * tied b + 5)" using that by simp
      ultimately show ?thesis by (intro int32_id) simp_all
    qed
    then show ?case using Cons by (simp add: tie_term_def)
  qed
  then show ?thesis
    by (simp add: varS_def variance_spec_def firstPartVariance_def)
qed

lemma run_decline:
  "every_cycle ''kmalloc-64'' 0 30 500 [400, 300, 200, 100] = Inr after_decline"
  by (simp add: run_defs after_decline_def)

lemma decline_scan:
  "outer_loop 120 (sValues after_decline) scan0 =
     \<lparr>accumTotal = - 10, accumMID_TERM = - 10, accumSHORT_TERM = - 10,
      counterTotal = 5, counterMID_TERM = 5, counterSHORT_TERM = 5\<rparr>"
  by (simp add: after_decline_def scan0_def pair_step_def count_step_def int32_def
      MID_TERM_def SHORT_TERM_def)

lemma decline_total:
  "total_of (mann_kendall 120 after_decline) =
     \<lparr>S_stat = - 10, n_count = 5, variance = 300 / 18,
      Z = Fin (- 9 / sqrt (300 / 18)), flag = ''NO''\<rparr> \<and>
   - 9 / sqrt (300 / 18) < - criticalValue"
proof -
  have v: "varS 5 (tiedbucketsTotal after_decline) = 300 / 18"
    by (simp add: varS_def firstPartVariance_def after_decline_def)
  have "(196 / 100 :: real) < 9 / sqrt (300 / 18)"
    by (rule z_exceeds) (simp_all add: power2_eq_square)
  then have lt: "- 9 / sqrt (300 / 18) < - criticalValue"
    by (simp add: criticalValue_def)
  have z: "zscore 5 (- 10) (tiedbucketsTotal after_decline) = Fin (- 9 / sqrt (300 / 18))"
    by (simp add: zscore_def v)
  have "- 9 / sqrt (300 / 18) < (0::real)"
    using lt by (simp add: criticalValue_def)
  then have "trend (Fin (- 9 / sqrt (300 / 18))) = ''NO''"
    by (simp add: trend_def)
  then show ?thesis
    using lt by (simp add: mann_kendall_def total_of_def decline_scan horizon_of_def z v)
qed

lemma feed_600: "feed (first_sample ''kmalloc-64'' 0 100) [(600, 200)] = Inr (after_two 600)"
  using run_600 by (simp add: every_cycle_def)

lemma subsequent_sample_name:
  "subsequent_sample t v mk = Inr mk' \<Longrightarrow> name mk' = name mk"
  by (auto simp: subsequent_sample_def split: sum.splits)

lemma cycle_time:
  assumes "0 \<le> d" and "int j * d < 2147483648"
  shows "int32 (int j * d) = int j * d"
proof -
  have "0 \<le> int j * d" using assms(1) by simp
  then show ?thesis using assms(2) by (intro int32_id) simp_all
qed

lemma main_loop_one_cache:
  assumes "name mk = nm" and "\<forall>c \<in> set cs. info_name c = nm"
    and "0 \<le> d" and "(int i + int (length cs)) * d < 2147483648"
  shows "main_loop d i (map (\<lambda>c. [c]) cs) [mk] =
           (case feed mk (paced (int i * d) d (map sample_value cs)) of
              Inl e \<Rightarrow> Inl e
            | Inr mk' \<Rightarrow> Inr [mk'])"
  using assms(1,2,4)
proof (induction cs arbitrary: mk i)
  case Nil
  then show ?case by simp
next
  case (Cons c cs)
  have c: "info_name c = name mk" using Cons.prems by simp
  have "int i * d \<le> (int i + int (length (c # cs))) * d"
    using assms(3) by (intro mult_right_mono) simp_all
  then have t: "int32 (int i * d) = int i * d"
    using Cons.prems(3) by (intro cycle_time [OF assms(3)]) simp
  have r: "(int (Suc i) + int (length cs)) * d < 2147483648"
    using Cons.prems(3) by (simp add: algebra_simps)
  show ?case
  proof (cases "subsequent_sample (int i * d) (sample_value c) mk")
    case (Inl e)
    then show ?thesis by (simp add: c t retention_def)
  next
    case (Inr mk1)
    have n: "name mk1 = nm"
      using subsequent_sample_name [OF Inr] Cons.prems(1) by simp
    have "int (Suc i) * d = int i * d + d" by (simp add: algebra_simps)
    then show ?thesis
      using Cons.IH [OF n _ r, of] Cons.prems(2) Inr
      by (simp add: c t retention_def)
  qed
qed

lemma main_loop_every_cycle:
  assumes "\<forall>c \<in> set cs. info_name c = info_name c0"
    and "0 \<le> d" and "(int i + int (length (c0 # cs))) * d < 2147483648"
  shows "main_loop d i (map (\<lambda>c. [c]) (c0 # cs)) [] =
           (case every_cycle (info_name c0) (int i * d) d (sample_value c0)
                   (map sample_value cs) of
              Inl e \<Rightarrow> Inl e
            | Inr mk \<Rightarrow> Inr [mk])"
proof -
  have n: "name (first_sample (info_name c0) (int i * d) (sample_value c0)) = info_name c0"
    by (simp add: first_sample_def)
  have "int i * d \<le> (int i + int (length (c0 # cs))) * d"
    using assms(2) by (intro mult_right_mono) simp_all
  then have t: "int32 (int i * d) = int i * d"
    using assms(3) by (intro cycle_time [OF assms(2)]) simp
  have r: "(int (Suc i) + int (length cs)) * d < 2147483648"
    using assms(3) by (simp add: algebra_simps)
  have "int (Suc i) * d = int i * d + d" by (simp add: algebra_simps)
  with main_loop_one_cache [OF n assms(1,2) r]
  show ?thesis
    by (simp add: t retention_def every_cycle_def)
qed

lemma main_loop_gap:
  "main_loop 600 0 [[kmalloc_64 100], [kmalloc_64 200], [], [], [kmalloc_64 300]] [] =
     Inr [after_gap]"
  by (simp add: Let_def int32_def kmalloc_64_def retention_def sample_value_def run_defs after_gap_def)

lemma main_loop_600:
  "main_loop 600 0 [[kmalloc_64 100], [kmalloc_64 200]] [] = Inr [after_two 600]"
  by (simp add: Let_def int32_def kmalloc_64_def retention_def sample_value_def run_defs after_two_def)

lemma main_loop_1000:
  "main_loop 1000 0 [[kmalloc_64 100], [kmalloc_64 200]] [] = Inr [after_two 1000]"
  "main_loop 1000 0 [[kmalloc_64 100], [kmalloc_64 200], [kmalloc_64 300]] [] =
     Inl NullDereference"
  by (simp_all add: Let_def int32_def kmalloc_64_def retention_def sample_value_def run_defs after_two_def)

lemma clean_horizon_paced:
  assumes "0 \<le> d" and "stamped t d xs" and "horizon_paced d w (length xs) boundary"
    and "clean (t + d) w xs boundary bs = Inr (b', bs')"
  shows "horizon_paced d w (Suc (length xs)) b'"
proof (cases "d \<le> w")
  case True
  then obtain b where b: "boundary = Some b" "window_ok d w (length xs) b"
    using assms(3) by (auto simp: horizon_paced_def)
  obtain b'' bs'' where "clean (t + d) w xs (Some b) bs = Inr (Some b'', bs'')"
    "window_ok d w (Suc (length xs)) b''"
    using clean_paced [OF assms(1) True assms(2) b(2)] by blast
  then show ?thesis using assms(4) b(1) True by (auto simp: horizon_paced_def)
next
  case False
  then have c: "length xs = 1 \<and> boundary = Some 0 \<or> length xs = 2 \<and> boundary = None"
    using assms(3) by (auto simp: horizon_paced_def)
  have "boundary \<noteq> None" using assms(4) by (auto simp: clean_def split: option.splits)
  then have l: "length xs = 1" "boundary = Some 0" using c by auto
  then have "timestamp (xs ! 0) = t" using assms(2) by (simp add: stamped_def)
  then have "clean (t + d) w xs (Some 0) bs =
      Inr (None, decrement bs (searchBucket bs (val (xs ! 0))))"
    using l(1) False by (simp add: clean_def node_at_def prev_of_def)
  then show ?thesis
    using assms(4) l False by (simp add: horizon_paced_def)
qed

lemma first_sample_run_ok: "0 \<le> d \<Longrightarrow> run_ok t d (first_sample nm t v)"
proof -
  assume "0 \<le> d"
  then have "paced_ok t d (first_sample nm t v)" by (rule first_sample_paced)
  then have "entity_ok (first_sample nm t v)" "stamped t d (sValues (first_sample nm t v))"
    by (simp_all add: paced_ok_def)
  moreover have "horizon_paced d w (length (sValues (first_sample nm t v)))
      (Some 0)" if "0 \<le> w" for w
    using that by (auto simp: horizon_paced_def first_sample_def window_ok_def)
  ultimately show ?thesis
    by (simp add: run_ok_def MID_TERM_def SHORT_TERM_def) (simp add: first_sample_def)
qed

lemma subsequent_sample_run_ok:
  assumes "0 \<le> d" and "run_ok t d mk" and "subsequent_sample (t + d) v mk = Inr mk'"
  shows "run_ok (t + d) d mk'"
proof -
  have ok: "entity_ok mk" and st: "stamped t d (sValues mk)"
    and hm: "horizon_paced d MID_TERM (length (sValues mk)) (lastMID_TERM mk)"
    and hs: "horizon_paced d SHORT_TERM (length (sValues mk)) (lastSHORT_TERM mk)"
    using assms(2) by (simp_all add: run_ok_def)
  obtain bm bs lm hmb ls hsb where c:
    "lastMID_TERM mk = Some bm" "lastSHORT_TERM mk = Some bs"
    "clean (t + d) MID_TERM (sValues mk) (Some bm) (tiedbucketsMID_TERM mk) = Inr (lm, hmb)"
    "clean (t + d) SHORT_TERM (sValues mk) (Some bs) (tiedbucketsSHORT_TERM mk) = Inr (ls, hsb)"
    "lastMID_TERM mk' = lm" "lastSHORT_TERM mk' = ls"
    using subsequent_sample_cases [OF assms(3)] by blast
  note s = subsequent_sample_ok [OF ok assms(3)]
  have "horizon_paced d MID_TERM (Suc (length (sValues mk))) lm"
    using clean_horizon_paced [OF assms(1) st _ c(3)] hm c(1) by simp
  moreover have "horizon_paced d SHORT_TERM (Suc (length (sValues mk))) ls"
    using clean_horizon_paced [OF assms(1) st _ c(4)] hs c(2) by simp
  moreover have "stamped (t + d) d (sValues mk')"
    using stamped_Cons [OF st] by (simp add: s(2))
  ultimately show ?thesis
    using s(1) c(5,6) by (simp add: run_ok_def s(2))
qed

lemma feed_run_ok:
  assumes "0 \<le> d" and "run_ok t d mk" and "feed mk (paced (t + d) d vs) = Inr mk'"
  shows "run_ok (t + int (length vs) * d) d mk'"
  using assms(2,3)
proof (induction vs arbitrary: t mk)
  case Nil
  then show ?case by simp
next
  case (Cons v vs)
  obtain mk1 where mk1: "subsequent_sample (t + d) v mk = Inr mk1"
    "feed mk1 (paced (t + d + d) d vs) = Inr mk'"
    using Cons.prems(2) by (auto split: sum.splits)
  have "run_ok (t + d) d mk1"
    by (rule subsequent_sample_run_ok [OF assms(1) Cons.prems(1) mk1(1)])
  from Cons.IH [OF this mk1(2)] show ?case by (simp add: algebra_simps)
qed

lemma every_cycle_run_ok:
  assumes "0 \<le> d" and "every_cycle nm t d v vs = Inr mk"
  shows "run_ok (t + int (length vs) * d) d mk"
  using feed_run_ok [OF assms(1) first_sample_run_ok [OF assms(1)]] assms(2)
  by (simp add: every_cycle_def)

lemma horizon_paced_counts:
  assumes "0 \<le> w" and "stamped t d xs" and "horizon_paced d w (length xs) boundary"
    and "bound_ok xs boundary bs"
  shows "hist_ok bs (filter (in_window t w) xs)"
proof (cases "d \<le> w")
  case True
  then obtain b where b: "boundary = Some b" "window_ok d w (length xs) b"
    using assms(3) by (auto simp: horizon_paced_def)
  show ?thesis
    using assms(4) unfolding paced_live [OF assms(2) b(2)] by (simp add: b(1) bound_ok_def)
next
  case False
  then consider "length xs = 1" "boundary = Some 0" | "length xs = 2" "boundary = None"
    using assms(3) by (auto simp: horizon_paced_def)
  then show ?thesis
  proof cases
    case 1
    then obtain x where x: "xs = [x]" by (cases xs) auto
    then have "timestamp x = t" using assms(2) by (simp add: stamped_def)
    then have "filter (in_window t w) xs = xs"
      using assms(1) by (simp add: x in_window_def)
    then show ?thesis using assms(4) 1 by (simp add: bound_ok_def live_def)
  next
    case 2
    then obtain x y where x: "xs = [x, y]"
      by (cases xs; cases "tl xs") auto
    have "timestamp (xs ! 0) = t - int 0 * d" "timestamp (xs ! 1) = t - int 1 * d"
      using assms(2) 2(1) by (simp_all add: stamped_def)
    then have "timestamp x = t" "timestamp y = t - d" by (simp_all add: x)
    then have "filter (in_window t w) xs = take 1 xs"
      using assms(1) False by (simp add: x in_window_def)
    then show ?thesis using assms(4) 2 by (simp add: bound_ok_def)
  qed
qed

lemma run_ok_sums:
  assumes "run_ok t d mk"
  shows "(\<Sum>b\<leftarrow>tiedbucketsTotal mk. tied b) = int (length (sValues mk))"
    and "(\<Sum>b\<leftarrow>tiedbucketsMID_TERM mk. tied b) =
           int (length (filter (in_window t MID_TERM) (sValues mk)))"
    and "(\<Sum>b\<leftarrow>tiedbucketsSHORT_TERM mk. tied b) =
           int (length (filter (in_window t SHORT_TERM) (sValues mk)))"
proof -
  have ok: "entity_ok mk" and st: "stamped t d (sValues mk)"
    and hm: "horizon_paced d MID_TERM (length (sValues mk)) (lastMID_TERM mk)"
    and hs: "horizon_paced d SHORT_TERM (length (sValues mk)) (lastSHORT_TERM mk)"
    using assms by (simp_all add: run_ok_def)
  show "(\<Sum>b\<leftarrow>tiedbucketsTotal mk. tied b) = int (length (sValues mk))"
    using ok by (intro hist_ok_sum) (simp add: entity_ok_def)
  have "hist_ok (tiedbucketsMID_TERM mk) (filter (in_window t MID_TERM) (sValues mk))"
    using ok by (intro horizon_paced_counts [OF _ st hm]) (simp_all add: entity_ok_def MID_TERM_def)
  then show "(\<Sum>b\<leftarrow>tiedbucketsMID_TERM mk. tied b) =
           int (length (filter (in_window t MID_TERM) (sValues mk)))"
    by (rule hist_ok_sum)
  have "hist_ok (tiedbucketsSHORT_TERM mk) (filter (in_window t SHORT_TERM) (sValues mk))"
    using ok by (intro horizon_paced_counts [OF _ st hs]) (simp_all add: entity_ok_def SHORT_TERM_def)
  then show "(\<Sum>b\<leftarrow>tiedbucketsSHORT_TERM mk. tied b) =
           int (length (filter (in_window t SHORT_TERM) (sValues mk)))"
    by (rule hist_ok_sum)
qed

lemma run_ok_tracks:
  assumes "0 \<le> d" and "d \<le> w" and "stamped t d xs" and "horizon_paced d w (length xs) boundary"
    and "bound_ok xs boundary bs"
  shows "\<exists>b. boundary = Some b \<and> tracks t w xs b bs"
proof -
  obtain b where b: "boundary = Some b" "window_ok d w (length xs) b"
    using assms(2,4) by (auto simp: horizon_paced_def)
  have "hist_ok bs (live xs b)" using assms(5) b(1) by (simp add: bound_ok_def)
  then have "tracks t w xs b bs" by (rule paced_tracks [OF assms(1,3) b(2)])
  then show ?thesis using b(1) by blast
qed

section \<open>The properties\<close>

text \<open>
  Claim C1.  For each of the three horizons of a cache, the flag logged at the end of a
  cycle is \<open>YES\<close> exactly when \<open>|Z| > criticalValue\<close> and \<open>Z > 0\<close>; in every other case it
  is \<open>NO\<close>, in particular after a significant decrease (\<open>Z < - criticalValue\<close>).
\<close>

theorem trend_flag:
  "\<forall>h \<in> set (horizons (mann_kendall t mk)).
     (flag h = ''YES'' \<longleftrightarrow> d_gt (fabs (Z h)) criticalValue \<and> d_gt (Z h) 0) \<and>
     (flag h \<noteq> ''YES'' \<longrightarrow> flag h = ''NO'') \<and>
     (d_lt (Z h) (- criticalValue) \<longrightarrow> flag h = ''NO'')"
proof
  fix h assume "h \<in> set (horizons (mann_kendall t mk))"
  then obtain a c bs where h: "h = horizon_of a c bs"
    using horizons_mann_kendall by blast
  show "(flag h = ''YES'' \<longleftrightarrow> d_gt (fabs (Z h)) criticalValue \<and> d_gt (Z h) 0) \<and>
     (flag h \<noteq> ''YES'' \<longrightarrow> flag h = ''NO'') \<and>
     (d_lt (Z h) (- criticalValue) \<longrightarrow> flag h = ''NO'')"
    using trend_YES_iff [of "zscore c a bs"] trend_cases [of "zscore c a bs"]
      trend_decrease [of "zscore c a bs"]
    by (auto simp: h horizon_of_def)
qed

theorem trend_flag_witness:
  "total_of (mann_kendall 120 after_decline) \<in> set (horizons (mann_kendall 120 after_decline)) \<and>
   d_lt (Z (total_of (mann_kendall 120 after_decline))) (- criticalValue) \<and>
   flag (total_of (mann_kendall 120 after_decline)) \<noteq> ''YES'' \<and>
   flag (total_of (mann_kendall 120 after_decline)) = ''NO''"
proof -
  have m: "total_of (mann_kendall 120 after_decline) \<in> set (horizons (mann_kendall 120 after_decline))"
    by (simp add: horizons_def)
  have d: "d_lt (Z (total_of (mann_kendall 120 after_decline))) (- criticalValue)"
    using decline_total by simp
  show ?thesis
    using trend_flag [of 120 after_decline] m d by fastforce
qed

text \<open>
  Claim C2 says that \<open>S_total\<close> is the sum over all pairs of samples of the sign of
  \<open>value (newer) - value (older)\<close>.  The accumulator is a C \<open>int\<close>: after 65537 strictly
  increasing samples the sum is 2147516416, and the accumulator holds -2147450880.
\<close>

theorem scan_overflow:
  "\<not> isl long_run \<and> length (sValues (projr long_run)) = 65537 \<and>
   S_stat (total_of (mann_kendall 1966080 (projr long_run))) = - 2147450880 \<and>
   S_pairs (sValues (projr long_run)) = 2147516416 \<and>
   S_stat (total_of (mann_kendall 1966080 (projr long_run))) \<noteq> S_pairs (sValues (projr long_run))"
  using long_run_facts(1,2,3) by (simp add: long_run_facts(4) horizon_of_def)

text \<open>
  Below that bound claim C2 holds: for a series of at most 65536 samples the three
  statistics are the sums over the pairs of the whole series, resp. of the pairs with
  both samples in the window, and they are the three accumulators of the one scan.
\<close>

theorem pairwise_scan_bounded:
  assumes "length (sValues mk) \<le> 65536"
  shows "S_stat (total_of (mann_kendall t mk)) = S_pairs (sValues mk) \<and>
         S_stat (mid_of (mann_kendall t mk)) = S_window t MID_TERM (sValues mk) \<and>
         S_stat (short_of (mann_kendall t mk)) = S_window t SHORT_TERM (sValues mk) \<and>
         S_stat (total_of (mann_kendall t mk)) = accumTotal (outer_loop t (sValues mk) scan0) \<and>
         S_stat (mid_of (mann_kendall t mk)) = accumMID_TERM (outer_loop t (sValues mk) scan0) \<and>
         S_stat (short_of (mann_kendall t mk)) = accumSHORT_TERM (outer_loop t (sValues mk) scan0)"
proof -
  have "int32 (S_pairs (sValues mk)) = S_pairs (sValues mk)"
    "int32 (S_window t MID_TERM (sValues mk)) = S_window t MID_TERM (sValues mk)"
    "int32 (S_window t SHORT_TERM (sValues mk)) = S_window t SHORT_TERM (sValues mk)"
    using small_series_fits [OF assms S_pairs_bound]
      small_series_fits [OF assms S_window_bound] by simp_all
  moreover have
    "S_stat (total_of (mann_kendall t mk)) = accumTotal (outer_loop t (sValues mk) scan0)"
    "S_stat (mid_of (mann_kendall t mk)) = accumMID_TERM (outer_loop t (sValues mk) scan0)"
    "S_stat (short_of (mann_kendall t mk)) = accumSHORT_TERM (outer_loop t (sValues mk) scan0)"
    by (simp_all add: mann_kendall_def Let_def total_of_def mid_of_def short_of_def horizon_of_def)
  ultimately show ?thesis
    by (simp add: mann_kendall_total mann_kendall_mid mann_kendall_short horizon_of_def)
qed

theorem pairwise_scan_bounded_example:
  "length (sValues after_decline) \<le> 65536 \<and>
   S_stat (total_of (mann_kendall 120 after_decline)) = S_pairs (sValues after_decline) \<and>
   S_stat (mid_of (mann_kendall 120 after_decline)) = S_window 120 MID_TERM (sValues after_decline) \<and>
   S_stat (short_of (mann_kendall 120 after_decline)) = S_window 120 SHORT_TERM (sValues after_decline) \<and>
   S_pairs (sValues after_decline) = - 10"
proof -
  have l: "length (sValues after_decline) \<le> 65536"
    by (simp add: after_decline_def)
  have "S_stat (total_of (mann_kendall 120 after_decline)) = - 10"
    using decline_total by simp
  then show ?thesis
    using pairwise_scan_bounded [OF l, of 120] l by simp
qed

text \<open>
  Claim C3 says that the variance is
  \<open>(n (n - 1) (2 n + 5) - \<Sum> tied (tied - 1) (2 tied + 5)) / 18\<close>.  The products of the
  tie term are computed in C \<open>int\<close>: for a cache that kept the value 4096 over 1024
  cycles, the one bucket has \<open>tied = 1024\<close>, its product 2150624256 exceeds the largest
  \<open>int\<close>, and the variance logged is \<open>4294967296 / 18\<close> where the formula gives 0.
\<close>

theorem variance_overflow:
  "\<not> isl constant_run \<and>
   n_count (total_of (mann_kendall 30690 (projr constant_run))) = 1024 \<and>
   tiedbucketsTotal (projr constant_run) = [\<lparr>bvalue = 4096, tied = 1024\<rparr>] \<and>
   variance (total_of (mann_kendall 30690 (projr constant_run))) = 4294967296 / 18 \<and>
   variance_spec 1024 (tiedbucketsTotal (projr constant_run)) = 0"
  using constant_run_facts(1)
  by (simp add: mann_kendall_total horizon_of_def constant_run_facts(2,3) varS_def
      firstPartVariance_def variance_spec_def tie_term_def int32_def)

text \<open>
  Claim C4.  For each horizon \<open>h\<close> of a cache: when \<open>n > 1\<close>, \<open>Z\<close> is
  \<open>(S - 1) / sqrt variance\<close> if \<open>S > 0\<close>, \<open>(S + 1) / sqrt variance\<close> if \<open>S < 0\<close>, and 0 if
  \<open>S = 0\<close> (the division and the root as C computes them, which for a positive variance
  are those of the real numbers); when \<open>n \<le> 1\<close>, \<open>Z\<close> is 0 and the flag is \<open>NO\<close>.  A cache
  with a single sample has \<open>n = 1\<close>, \<open>Z = 0\<close> and the flag \<open>NO\<close> in every horizon.
\<close>

theorem z_score:
  "(\<forall>h \<in> set (horizons (mann_kendall t mk)).
      (1 < n_count h \<and> 0 < S_stat h \<longrightarrow>
         Z h = d_div (real_of_int (S_stat h - 1)) (d_sqrt (variance h))) \<and>
      (1 < n_count h \<and> S_stat h < 0 \<longrightarrow>
         Z h = d_div (real_of_int (S_stat h + 1)) (d_sqrt (variance h))) \<and>
      (1 < n_count h \<and> S_stat h = 0 \<longrightarrow> Z h = Fin 0) \<and>
      (1 < n_count h \<and> 0 < variance h \<longrightarrow>
         Z h = Fin (if 0 < S_stat h then real_of_int (S_stat h - 1) / sqrt (variance h)
                    else if S_stat h < 0 then real_of_int (S_stat h + 1) / sqrt (variance h)
                    else 0)) \<and>
      (n_count h \<le> 1 \<longrightarrow> Z h = Fin 0 \<and> flag h = ''NO'')) \<and>
   (\<forall>h \<in> set (horizons (mann_kendall ts (first_sample nm ts v))).
      n_count h = 1 \<and> Z h = Fin 0 \<and> flag h = ''NO'')"
  using z_score_horizon z_score_single by blast

theorem z_score_witness:
  "total_of (mann_kendall 120 after_decline) \<in> set (horizons (mann_kendall 120 after_decline)) \<and>
   1 < n_count (total_of (mann_kendall 120 after_decline)) \<and>
   S_stat (total_of (mann_kendall 120 after_decline)) < 0 \<and>
   0 < variance (total_of (mann_kendall 120 after_decline)) \<and>
   Z (total_of (mann_kendall 120 after_decline)) =
     d_div (real_of_int (S_stat (total_of (mann_kendall 120 after_decline)) + 1))
       (d_sqrt (variance (total_of (mann_kendall 120 after_decline)))) \<and>
   Z (total_of (mann_kendall 120 after_decline)) = Fin (- 9 / sqrt (300 / 18))"
proof -
  have m: "total_of (mann_kendall 120 after_decline) \<in> set (horizons (mann_kendall 120 after_decline))"
    by (simp add: horizons_def)
  have n: "1 < n_count (total_of (mann_kendall 120 after_decline))"
    "S_stat (total_of (mann_kendall 120 after_decline)) < 0"
    "0 < variance (total_of (mann_kendall 120 after_decline))"
    "Z (total_of (mann_kendall 120 after_decline)) = Fin (- 9 / sqrt (300 / 18))"
    using decline_total by simp_all
  show ?thesis
    using z_score [of 120 after_decline] m n by fastforce
qed

text \<open>
  Claim C5 says that a retirement advances the boundary to the next newer node, and gives
  samples 1000 seconds apart as its example.  There the second sample retires the first
  one from the short-term horizon: the count of its value goes from 1 to 0, and the
  mid-term and total histograms retain it, as the claim says.  But line 310 advances the
  boundary along the \<open>prev\<close> link of the retired node before the new node is linked in
  (lines 352-354): the boundary is \<open>NULL\<close>, where the claim has it on the node of the
  second sample, and the third sample dereferences it.
\<close>

theorem retirement_null_boundary:
  "subsequent_sample 1000 200 (first_sample ''kmalloc-64'' 0 100) = Inr (after_two 1000) \<and>
   lastSHORT_TERM (first_sample ''kmalloc-64'' 0 100) = Some 0 \<and>
   tiedbucketsSHORT_TERM (first_sample ''kmalloc-64'' 0 100) = [\<lparr>bvalue = 100, tied = 1\<rparr>] \<and>
   tiedbucketsSHORT_TERM (after_two 1000) =
     [\<lparr>bvalue = 200, tied = 1\<rparr>, \<lparr>bvalue = 100, tied = 0\<rparr>] \<and>
   tiedbucketsMID_TERM (after_two 1000) =
     [\<lparr>bvalue = 200, tied = 1\<rparr>, \<lparr>bvalue = 100, tied = 1\<rparr>] \<and>
   tiedbucketsTotal (after_two 1000) =
     [\<lparr>bvalue = 200, tied = 1\<rparr>, \<lparr>bvalue = 100, tied = 1\<rparr>] \<and>
   node_at (sValues (after_two 1000)) 1 = Some \<lparr>timestamp = 1000, val = 200\<rparr> \<and>
   prev_of (sValues (after_two 1000)) 0 = Some 1 \<and>
   lastSHORT_TERM (after_two 1000) = None \<and>
   subsequent_sample 2000 300 (after_two 1000) = Inl NullDereference"
proof -
  have "subsequent_sample 1000 200 (first_sample ''kmalloc-64'' 0 100) = Inr (after_two 1000)"
    by (simp add: run_defs after_two_def)
  moreover have "subsequent_sample 2000 300 (after_two 1000) = Inl NullDereference"
    by (simp add: subsequent_sample_def clean_def node_at_def after_two_def MID_TERM_def)
  ultimately show ?thesis
    by (simp add: after_two_def first_sample_def node_at_def prev_of_def)
qed

text \<open>
  What a further sample at time \<open>t\<close> of a known cache does when it returns: the node of
  each boundary is tested once; if its time stamp is less than \<open>t - window\<close>, the bucket
  of its value in the histogram of that horizon is decremented by exactly 1 (and kept,
  also at 0) and the boundary takes the \<open>prev\<close> link of that node; otherwise boundary and
  histogram are left as they are.  Then the new value is counted.  With two samples 1000
  seconds apart, the short-term count of the first value has been decremented once and
  the mid-term and total histograms retain it.
\<close>

theorem boundary_retirement:
  assumes "feed (first_sample nm t0 v0) samples = Inr mk"
    and "subsequent_sample t v mk = Inr mk'"
  shows "(\<exists>bm bs ndm nds.
            lastMID_TERM mk = Some bm \<and> node_at (sValues mk) bm = Some ndm \<and>
            lastSHORT_TERM mk = Some bs \<and> node_at (sValues mk) bs = Some nds \<and>
            retired_once t MID_TERM (sValues mk) bm ndm (tiedbucketsMID_TERM mk) v
              (lastMID_TERM mk') (tiedbucketsMID_TERM mk') \<and>
            retired_once t SHORT_TERM (sValues mk) bs nds (tiedbucketsSHORT_TERM mk) v
              (lastSHORT_TERM mk') (tiedbucketsSHORT_TERM mk')) \<and>
         (\<exists>st. every_cycle nm t0 1000 v0 [v1] = Inr st \<and>
            tiedbucketsSHORT_TERM st = count_in [\<lparr>bvalue = v0, tied = 1 - 1\<rparr>] v1 \<and>
            tiedbucketsMID_TERM st = count_in [\<lparr>bvalue = v0, tied = 1\<rparr>] v1 \<and>
            tiedbucketsTotal st = count_in [\<lparr>bvalue = v0, tied = 1\<rparr>] v1)"
proof
  have ok: "entity_ok mk"
    using feed_ok [OF first_sample_ok assms(1)] by simp
  obtain bm bs lm hm ls hs where c:
    "lastMID_TERM mk = Some bm" "lastSHORT_TERM mk = Some bs"
    "clean t MID_TERM (sValues mk) (Some bm) (tiedbucketsMID_TERM mk) = Inr (lm, hm)"
    "clean t SHORT_TERM (sValues mk) (Some bs) (tiedbucketsSHORT_TERM mk) = Inr (ls, hs)"
    "lastMID_TERM mk' = lm" "lastSHORT_TERM mk' = ls"
    "tiedbucketsMID_TERM mk' = count_in hm v"
    "tiedbucketsSHORT_TERM mk' = count_in hs v"
    using subsequent_sample_cases [OF assms(2)] by blast
  have "bound_ok (sValues mk) (Some bm) (tiedbucketsMID_TERM mk)"
    "bound_ok (sValues mk) (Some bs) (tiedbucketsSHORT_TERM mk)"
    using ok c(1,2) by (simp_all add: entity_ok_def)
  then obtain ndm nds where
    "node_at (sValues mk) bm = Some ndm"
    "retired_once t MID_TERM (sValues mk) bm ndm (tiedbucketsMID_TERM mk) v lm (count_in hm v)"
    "node_at (sValues mk) bs = Some nds"
    "retired_once t SHORT_TERM (sValues mk) bs nds (tiedbucketsSHORT_TERM mk) v ls (count_in hs v)"
    using clean_once [OF _ c(3), of v] clean_once [OF _ c(4), of v] by blast
  then show "\<exists>bm bs ndm nds.
            lastMID_TERM mk = Some bm \<and> node_at (sValues mk) bm = Some ndm \<and>
            lastSHORT_TERM mk = Some bs \<and> node_at (sValues mk) bs = Some nds \<and>
            retired_once t MID_TERM (sValues mk) bm ndm (tiedbucketsMID_TERM mk) v
              (lastMID_TERM mk') (tiedbucketsMID_TERM mk') \<and>
            retired_once t SHORT_TERM (sValues mk) bs nds (tiedbucketsSHORT_TERM mk) v
              (lastSHORT_TERM mk') (tiedbucketsSHORT_TERM mk')"
    using c(1,2,5,6,7,8) by auto
next
  show "\<exists>st. every_cycle nm t0 1000 v0 [v1] = Inr st \<and>
            tiedbucketsSHORT_TERM st = count_in [\<lparr>bvalue = v0, tied = 1 - 1\<rparr>] v1 \<and>
            tiedbucketsMID_TERM st = count_in [\<lparr>bvalue = v0, tied = 1\<rparr>] v1 \<and>
            tiedbucketsTotal st = count_in [\<lparr>bvalue = v0, tied = 1\<rparr>] v1"
    unfolding two_samples_1000 by simp
qed

theorem boundary_retirement_example:
  "feed (first_sample ''kmalloc-64'' 0 100) [(600, 200)] = Inr (after_two 600) \<and>
   subsequent_sample 2400 300 (after_two 600) = Inr after_gap \<and>
   (\<exists>bm bs ndm nds.
      lastMID_TERM (after_two 600) = Some bm \<and> node_at (sValues (after_two 600)) bm = Some ndm \<and>
      lastSHORT_TERM (after_two 600) = Some bs \<and> node_at (sValues (after_two 600)) bs = Some nds \<and>
      retired_once 2400 MID_TERM (sValues (after_two 600)) bm ndm
        (tiedbucketsMID_TERM (after_two 600)) 300
        (lastMID_TERM after_gap) (tiedbucketsMID_TERM after_gap) \<and>
      retired_once 2400 SHORT_TERM (sValues (after_two 600)) bs nds
        (tiedbucketsSHORT_TERM (after_two 600)) 300
        (lastSHORT_TERM after_gap) (tiedbucketsSHORT_TERM after_gap))"
  using boundary_retirement [OF feed_600 run_gap_step] feed_600 run_gap_step
  by blast

text \<open>
  The test is made once, where claim C5 words it as a loop.  After the samples at 0 and
  600, the sample at 2400 retires one node from the short-term horizon; the loop retires
  two, and the node the boundary is left on is older than \<open>2400 - 900\<close>.
\<close>

lemma retirement_single_test:
  "main_loop 600 0 [[kmalloc_64 100], [kmalloc_64 200]] [] = Inr [after_two 600] \<and>
   subsequent_sample 2400 300 (after_two 600) = Inr after_gap \<and>
   clean 2400 SHORT_TERM (sValues (after_two 600)) (lastSHORT_TERM (after_two 600))
       (tiedbucketsSHORT_TERM (after_two 600))
     = Inr (Some 1, [\<lparr>bvalue = 200, tied = 1\<rparr>, \<lparr>bvalue = 100, tied = 0\<rparr>]) \<and>
   retire_while_spec 2400 SHORT_TERM (sValues (after_two 600)) (lastSHORT_TERM (after_two 600))
       (tiedbucketsSHORT_TERM (after_two 600))
     = (None, [\<lparr>bvalue = 200, tied = 0\<rparr>, \<lparr>bvalue = 100, tied = 0\<rparr>]) \<and>
   node_at (sValues (after_two 600)) 1 = Some \<lparr>timestamp = 600, val = 200\<rparr> \<and>
   timestamp \<lparr>timestamp = 600, val = 200\<rparr> < 2400 - SHORT_TERM"
  using main_loop_600 run_gap_step
  by (simp add: after_two_def clean_def node_at_def prev_of_def decrement_def SHORT_TERM_def)

text \<open>
  Claim C6, as amended.  For every cache, at the end of every cycle the tied counts of
  the total histogram sum to the number of its samples.  For a cache that is sampled in
  consecutive cycles, a constant \<open>d \<ge> 0\<close> seconds apart, at the end of every cycle the
  tied counts of the mid-term and of the short-term histogram sum to the number of
  samples within the window of that horizon.
\<close>

theorem histogram_window_consistency:
  "(feed (first_sample nm t0 v) samples = Inr mk \<longrightarrow>
      (\<Sum>b\<leftarrow>tiedbucketsTotal mk. tied b) = int (length (sValues mk)) \<and>
      length (sValues mk) = Suc (length samples)) \<and>
   (0 \<le> d \<and> every_cycle nm t0 d v vs = Inr mk' \<longrightarrow>
      map val (sValues mk') = rev (v # vs) \<and>
      (\<Sum>b\<leftarrow>tiedbucketsMID_TERM mk'. tied b) =
         int (length (filter (in_window (t0 + int (length vs) * d) MID_TERM) (sValues mk'))) \<and>
      (\<Sum>b\<leftarrow>tiedbucketsSHORT_TERM mk'. tied b) =
         int (length (filter (in_window (t0 + int (length vs) * d) SHORT_TERM) (sValues mk'))))"
proof (intro conjI impI)
  assume f: "feed (first_sample nm t0 v) samples = Inr mk"
  note ok = feed_ok [OF first_sample_ok f]
  have "entity_ok mk" using ok by (rule conjunct1)
  then have "hist_ok (tiedbucketsTotal mk) (sValues mk)"
    by (simp add: entity_ok_def)
  then show "(\<Sum>b\<leftarrow>tiedbucketsTotal mk. tied b) = int (length (sValues mk))"
    by (rule hist_ok_sum)
  show "length (sValues mk) = Suc (length samples)"
    using ok by (simp add: first_sample_def)
next
  assume a: "0 \<le> d \<and> every_cycle nm t0 d v vs = Inr mk'"
  then have d: "0 \<le> d" and mk: "every_cycle nm t0 d v vs = Inr mk'" by simp_all
  note r = run_ok_sums [OF every_cycle_run_ok [OF d mk]]
  show "map val (sValues mk') = rev (v # vs)" by (rule every_cycle_series [OF mk])
  show "(\<Sum>b\<leftarrow>tiedbucketsMID_TERM mk'. tied b) =
      int (length (filter (in_window (t0 + int (length vs) * d) MID_TERM) (sValues mk')))"
    by (rule r(2))
  show "(\<Sum>b\<leftarrow>tiedbucketsSHORT_TERM mk'. tied b) =
      int (length (filter (in_window (t0 + int (length vs) * d) SHORT_TERM) (sValues mk')))"
    by (rule r(3))
qed

text \<open>
  Claim C6 as stated covers every cache.  For a cache missing from two reports
  (\<open>after_gap\<close>) the short-term counts sum to 2 with one sample in the window.
\<close>

theorem histogram_window_counterexample:
  "main_loop 600 0 [[kmalloc_64 100], [kmalloc_64 200], [], [], [kmalloc_64 300]] [] =
     Inr [after_gap] \<and>
   feed (first_sample ''kmalloc-64'' 0 100) [(600, 200), (2400, 300)] = Inr after_gap \<and>
   (\<Sum>b\<leftarrow>tiedbucketsSHORT_TERM after_gap. tied b) = 2 \<and>
   length (filter (in_window 2400 SHORT_TERM) (sValues after_gap)) = 1 \<and>
   n_count (short_of (mann_kendall 2400 after_gap)) = 1 \<and>
   (\<Sum>b\<leftarrow>tiedbucketsSHORT_TERM after_gap. tied b) \<noteq>
     int (length (filter (in_window 2400 SHORT_TERM) (sValues after_gap)))"
  using run_gap main_loop_gap
  by (simp add: mann_kendall_counts) (simp add: after_gap_def in_window_def SHORT_TERM_def)

theorem histogram_window_witness:
  "feed (first_sample ''kmalloc-64'' 0 100) [(600, 200), (2400, 300)] = Inr after_gap \<and>
   (\<Sum>b\<leftarrow>tiedbucketsTotal after_gap. tied b) = int (length (sValues after_gap)) \<and>
   length (sValues after_gap) = 3 \<and>
   (0::int) \<le> 600 \<and>
   every_cycle ''kmalloc-64'' 0 600 100 [200, 300, 400, 500, 600, 700, 800] = Inr after_eight \<and>
   (\<Sum>b\<leftarrow>tiedbucketsMID_TERM after_eight. tied b) =
      int (length (filter (in_window 4200 MID_TERM) (sValues after_eight))) \<and>
   (\<Sum>b\<leftarrow>tiedbucketsSHORT_TERM after_eight. tied b) =
      int (length (filter (in_window 4200 SHORT_TERM) (sValues after_eight))) \<and>
   (\<Sum>b\<leftarrow>tiedbucketsMID_TERM after_eight. tied b) = 7 \<and>
   (\<Sum>b\<leftarrow>tiedbucketsSHORT_TERM after_eight. tied b) = 2"
proof -
  have n: "(\<Sum>b\<leftarrow>tiedbucketsMID_TERM after_eight. tied b) = 7"
    "(\<Sum>b\<leftarrow>tiedbucketsSHORT_TERM after_eight. tied b) = 2"
    by (simp_all add: after_eight_def)
  have d: "(0::int) \<le> 600" by simp
  show ?thesis
    using histogram_window_consistency [of "''kmalloc-64''" 0 100 "[(600, 200), (2400, 300)]"
        after_gap 600 "[200, 300, 400, 500, 600, 700, 800]" after_eight]
      run_gap run_eight n d
    by simp
qed

text \<open>
  Claim C7 says that at the end of every cycle each boundary references a node of the
  series, the oldest one within the window.  With a delay of 1000 seconds the second
  cycle retires the first sample from the short-term horizon and advances the boundary
  along its \<open>prev\<close> link (line 310) before the new node is linked in (lines 352-354): at
  the end of that cycle the short-term boundary is \<open>NULL\<close>, with the second sample within
  the window, and the third cycle dereferences it.
\<close>

theorem boundary_null_dereference:
  "main_loop 1000 0 [[kmalloc_64 100], [kmalloc_64 200]] [] = Inr [after_two 1000] \<and>
   sValues (after_two 1000) =
     [\<lparr>timestamp = 1000, val = 200\<rparr>, \<lparr>timestamp = 0, val = 100\<rparr>] \<and>
   filter (in_window 1000 SHORT_TERM) (sValues (after_two 1000)) =
     [\<lparr>timestamp = 1000, val = 200\<rparr>] \<and>
   lastMID_TERM (after_two 1000) = Some 0 \<and>
   lastSHORT_TERM (after_two 1000) = None \<and>
   main_loop 1000 0 [[kmalloc_64 100], [kmalloc_64 200], [kmalloc_64 300]] [] =
     Inl NullDereference"
  using main_loop_1000
  by (simp add: after_two_def in_window_def SHORT_TERM_def)

text \<open>
  For a cache that is sampled in consecutive cycles, a constant \<open>d \<ge> 0\<close> seconds apart,
  and a horizon whose window is at least \<open>d\<close>, claim C7 holds at the end of every cycle
  that completes: the boundary references a node of the series; that node is within the
  window and no sample within the window is older; every newer node is within the
  window, every older node is outside of it, and the histogram counts exactly the nodes
  from the boundary on.  With \<open>d \<le> 900\<close> every cycle completes.
\<close>

theorem boundary_tracks_bounded:
  assumes "0 \<le> d"
  shows "(d \<le> SHORT_TERM \<longrightarrow> (\<exists>mk. every_cycle nm t0 d v vs = Inr mk)) \<and>
         (\<forall>mk. every_cycle nm t0 d v vs = Inr mk \<longrightarrow>
            (d \<le> MID_TERM \<longrightarrow>
               (\<exists>b. lastMID_TERM mk = Some b \<and>
                  tracks (t0 + int (length vs) * d) MID_TERM (sValues mk) b
                    (tiedbucketsMID_TERM mk))) \<and>
            (d \<le> SHORT_TERM \<longrightarrow>
               (\<exists>b. lastSHORT_TERM mk = Some b \<and>
                  tracks (t0 + int (length vs) * d) SHORT_TERM (sValues mk) b
                    (tiedbucketsSHORT_TERM mk))))"
proof (intro conjI impI allI)
  assume "d \<le> SHORT_TERM"
  then show "\<exists>mk. every_cycle nm t0 d v vs = Inr mk"
    using every_cycle_paced [OF assms] by blast
next
  fix mk assume mk: "every_cycle nm t0 d v vs = Inr mk" and "d \<le> MID_TERM"
  note r = every_cycle_run_ok [OF assms mk]
  then show "\<exists>b. lastMID_TERM mk = Some b \<and>
      tracks (t0 + int (length vs) * d) MID_TERM (sValues mk) b (tiedbucketsMID_TERM mk)"
    using \<open>d \<le> MID_TERM\<close>
    by (intro run_ok_tracks [OF assms]) (simp_all add: run_ok_def entity_ok_def)
next
  fix mk assume mk: "every_cycle nm t0 d v vs = Inr mk" and "d \<le> SHORT_TERM"
  note r = every_cycle_run_ok [OF assms mk]
  then show "\<exists>b. lastSHORT_TERM mk = Some b \<and>
      tracks (t0 + int (length vs) * d) SHORT_TERM (sValues mk) b (tiedbucketsSHORT_TERM mk)"
    using \<open>d \<le> SHORT_TERM\<close>
    by (intro run_ok_tracks [OF assms]) (simp_all add: run_ok_def entity_ok_def)
qed

theorem boundary_tracks_bounded_example:
  "(0::int) \<le> 600 \<and> 600 \<le> SHORT_TERM \<and> 600 \<le> MID_TERM \<and>
   every_cycle ''kmalloc-64'' 0 600 100 [200, 300, 400, 500, 600, 700, 800] = Inr after_eight \<and>
   lastMID_TERM after_eight = Some 1 \<and>
   tracks 4200 MID_TERM (sValues after_eight) 1 (tiedbucketsMID_TERM after_eight) \<and>
   lastSHORT_TERM after_eight = Some 6 \<and>
   tracks 4200 SHORT_TERM (sValues after_eight) 6 (tiedbucketsSHORT_TERM after_eight)"
proof -
  have a: "(0::int) \<le> 600" "(600::int) \<le> SHORT_TERM" "(600::int) \<le> MID_TERM"
    by (simp_all add: SHORT_TERM_def MID_TERM_def)
  have l: "lastMID_TERM after_eight = Some 1" "lastSHORT_TERM after_eight = Some 6"
    by (simp_all add: after_eight_def)
  have "tracks 4200 MID_TERM (sValues after_eight) 1 (tiedbucketsMID_TERM after_eight)"
    "tracks 4200 SHORT_TERM (sValues after_eight) 6 (tiedbucketsSHORT_TERM after_eight)"
    using boundary_tracks_bounded [OF a(1), of "''kmalloc-64''" 0 100
        "[200, 300, 400, 500, 600, 700, 800]"] run_eight a(2,3) l
    by simp_all
  then show ?thesis using a l run_eight by simp
qed

text \<open>
  A sample retires at most one node.  For a cache missing from two reports the
  short-term boundary is left on a node outside the window.
\<close>

lemma boundary_after_gap:
  "main_loop 600 0 [[kmalloc_64 100], [kmalloc_64 200], [], [], [kmalloc_64 300]] [] =
     Inr [after_gap] \<and>
   lastSHORT_TERM after_gap = Some 1 \<and>
   node_at (sValues after_gap) 1 = Some \<lparr>timestamp = 600, val = 200\<rparr> \<and>
   \<not> in_window 2400 SHORT_TERM \<lparr>timestamp = 600, val = 200\<rparr>"
  using main_loop_gap
  by (simp add: after_gap_def in_window_def SHORT_TERM_def node_at_def)

text \<open>
  Claim C8.  The first sample of a cache (value \<open>v\<close>, time stamp \<open>ts\<close>) creates a series
  of the one node \<open>(ts, v)\<close>, sets both boundaries to that node, and gives each of the
  three histograms the one bucket \<open>(v, 1)\<close>; this is the entity that \<open>monitor\<close> registers
  for a cache it does not know yet.
\<close>

theorem first_ever_sample:
  "searchSLAB [] (info_name info) = None \<and>
   monitor ts [info] [] =
     Inr ([first_sample (info_name info) ts (sample_value info)],
          [mann_kendall ts (first_sample (info_name info) ts (sample_value info))]) \<and>
   retention ts info None = Inr (first_sample (info_name info) ts (sample_value info)) \<and>
   sValues (first_sample nm ts v) = [\<lparr>timestamp = ts, val = v\<rparr>] \<and>
   lastMID_TERM (first_sample nm ts v) = Some 0 \<and>
   lastSHORT_TERM (first_sample nm ts v) = Some 0 \<and>
   node_at (sValues (first_sample nm ts v)) 0 = Some \<lparr>timestamp = ts, val = v\<rparr> \<and>
   tiedbucketsTotal (first_sample nm ts v) = [\<lparr>bvalue = v, tied = 1\<rparr>] \<and>
   tiedbucketsMID_TERM (first_sample nm ts v) = [\<lparr>bvalue = v, tied = 1\<rparr>] \<and>
   tiedbucketsSHORT_TERM (first_sample nm ts v) = [\<lparr>bvalue = v, tied = 1\<rparr>]"
  by (simp add: Let_def retention_def) (simp add: first_sample_def node_at_def)

text \<open>
  Claim C9 says that \<open>k\<close> strictly increasing values give \<open>S = k (k - 1) / 2\<close>.  The
  accumulator is a C \<open>int\<close>: for the values 1 to 65537 the total statistic is not
  \<open>65537 * 65536 / 2\<close>, and the flag of the total horizon is \<open>NO\<close>.
\<close>

theorem increasing_overflow:
  "\<not> isl long_run \<and> length (sValues (projr long_run)) = 65537 \<and>
   sorted_wrt (<) (1 # ramp) \<and>
   S_stat (total_of (mann_kendall 1966080 (projr long_run))) \<noteq> 65537 * (65537 - 1) div 2 \<and>
   flag (total_of (mann_kendall 1966080 (projr long_run))) = ''NO''"
proof -
  have sp: "secondPartVariance (tiedbucketsTotal (projr long_run)) = 0"
    using long_run_facts(5) by (intro secondPartVariance_no_ties) simp
  have "0 < varS 65537 (tiedbucketsTotal (projr long_run))"
    by (simp add: varS_def firstPartVariance_def sp)
  then have "trend (zscore 65537 (- 2147450880) (tiedbucketsTotal (projr long_run))) = ''NO''"
    by (intro negative_is_NO) simp_all
  then show ?thesis
    using long_run_facts(1,2) ramp_facts(2)
    by (simp add: long_run_facts(4) horizon_of_def del: sorted_wrt.simps)
qed

text \<open>
  Below that bound claim C9 holds: for at most 65536 strictly increasing values, sampled
  a constant \<open>d\<close> seconds apart with \<open>0 \<le> d \<le> 900\<close>, every horizon that holds all \<open>k\<close>
  samples has \<open>S = k (k - 1) / 2\<close>, only buckets with \<open>tied = 1\<close>, the variance
  \<open>k (k - 1) (2 k + 5) / 18\<close> and, for \<open>k = 30\<close>, a \<open>Z\<close> above the critical value and the
  flag \<open>YES\<close>.
\<close>

theorem strictly_increasing_bounded:
  assumes "0 \<le> d" and "d \<le> SHORT_TERM" and "sorted_wrt (<) (v # vs)"
    and "length vs < 65536"
  shows "\<exists>mk. every_cycle nm t0 d v vs = Inr mk \<and>
           increasing_stats (int (length vs) + 1)
             (total_of (mann_kendall (t0 + int (length vs) * d) mk)) (tiedbucketsTotal mk) \<and>
           (int (length vs) * d \<le> MID_TERM \<longrightarrow>
              increasing_stats (int (length vs) + 1)
                (mid_of (mann_kendall (t0 + int (length vs) * d) mk)) (tiedbucketsMID_TERM mk)) \<and>
           (int (length vs) * d \<le> SHORT_TERM \<longrightarrow>
              increasing_stats (int (length vs) + 1)
                (short_of (mann_kendall (t0 + int (length vs) * d) mk))
                (tiedbucketsSHORT_TERM mk))"
proof -
  define t where "t = t0 + int (length vs) * d"
  obtain mk where mk: "every_cycle nm t0 d v vs = Inr mk" "paced_ok t d mk"
    using every_cycle_paced [OF assms(1,2)] unfolding t_def by blast
  note inc = increasing_values [OF mk(1) assms(3)]
  note src = every_cycle_from [OF mk(1)]
  have len: "length (sValues mk) = Suc (length vs)" using inc(3) by simp
  have ok: "entity_ok mk" using mk(2) by (simp add: paced_ok_def)
  obtain bm where bm: "lastMID_TERM mk = Some bm"
    "window_ok d MID_TERM (length (sValues mk)) bm"
    using mk(2) by (auto simp: paced_ok_def)
  obtain bs where bs: "lastSHORT_TERM mk = Some bs"
    "window_ok d SHORT_TERM (length (sValues mk)) bs"
    using mk(2) by (auto simp: paced_ok_def)
  have h: "hist_ok (tiedbucketsTotal mk) (sValues mk)"
    using ok by (simp add: entity_ok_def)
  have "\<forall>c \<in> set (tiedbucketsTotal mk). tied c = 1"
    using distinct_tied_one [OF h _ inc(2)] src by blast
  then have total: "increasing_stats (int (length vs) + 1)
      (total_of (mann_kendall t mk)) (tiedbucketsTotal mk)"
    unfolding mann_kendall_total inc(3)
    using S_pairs_decreasing [OF inc(1)] assms(4) inc(3)
    by (intro increasing_horizon) simp_all
  have n: "int (length (sValues mk) - 1) = int (length vs)"
    "1 \<le> length (sValues mk)" "length (sValues mk) \<le> 65536"
    using len assms(4) by simp_all
  have mid: "increasing_stats (int (length vs) + 1)
      (mid_of (mann_kendall t mk)) (tiedbucketsMID_TERM mk)" if "int (length vs) * d \<le> MID_TERM"
  proof -
    have "bound_ok (sValues mk) (lastMID_TERM mk) (tiedbucketsMID_TERM mk)"
      using ok by (simp add: entity_ok_def)
    moreover have "buckets_from (tiedbucketsMID_TERM mk) (sValues mk)"
      using src by simp
    moreover have "int (length (sValues mk) - 1) * d \<le> MID_TERM"
      using that by (simp only: n(1))
    ultimately have "increasing_stats (int (length (sValues mk)))
           (horizon_of (int32 (S_window t MID_TERM (sValues mk)))
              (int (length (filter (in_window t MID_TERM) (sValues mk))))
              (tiedbucketsMID_TERM mk)) (tiedbucketsMID_TERM mk)"
      using n(2,3) by (intro increasing_window [OF mk(2) bm(1) bm(2) _ _ inc(1,2)])
    then show ?thesis unfolding mann_kendall_mid inc(3) .
  qed
  have short: "increasing_stats (int (length vs) + 1)
      (short_of (mann_kendall t mk)) (tiedbucketsSHORT_TERM mk)"
    if "int (length vs) * d \<le> SHORT_TERM"
  proof -
    have "bound_ok (sValues mk) (lastSHORT_TERM mk) (tiedbucketsSHORT_TERM mk)"
      using ok by (simp add: entity_ok_def)
    moreover have "buckets_from (tiedbucketsSHORT_TERM mk) (sValues mk)"
      using src by simp
    moreover have "int (length (sValues mk) - 1) * d \<le> SHORT_TERM"
      using that by (simp only: n(1))
    ultimately have "increasing_stats (int (length (sValues mk)))
           (horizon_of (int32 (S_window t SHORT_TERM (sValues mk)))
              (int (length (filter (in_window t SHORT_TERM) (sValues mk))))
              (tiedbucketsSHORT_TERM mk)) (tiedbucketsSHORT_TERM mk)"
      using n(2,3) by (intro increasing_window [OF mk(2) bs(1) bs(2) _ _ inc(1,2)])
    then show ?thesis unfolding mann_kendall_short inc(3) .
  qed
  show ?thesis
    using mk(1) total mid short unfolding t_def by blast
qed

theorem strictly_increasing_bounded_example:
  "(0::int) \<le> 30 \<and> 30 \<le> SHORT_TERM \<and> sorted_wrt (<) (1 # [2..30::int]) \<and>
   length [2..30::int] < 65536 \<and> int (length [2..30::int]) * 30 \<le> SHORT_TERM \<and>
   (\<exists>mk. every_cycle ''kmalloc-64'' 0 30 1 [2..30] = Inr mk \<and>
      increasing_stats 30 (total_of (mann_kendall 870 mk)) (tiedbucketsTotal mk) \<and>
      increasing_stats 30 (mid_of (mann_kendall 870 mk)) (tiedbucketsMID_TERM mk) \<and>
      increasing_stats 30 (short_of (mann_kendall 870 mk)) (tiedbucketsSHORT_TERM mk) \<and>
      S_stat (short_of (mann_kendall 870 mk)) = 435 \<and>
      flag (short_of (mann_kendall 870 mk)) = ''YES'')"
proof -
  have h: "(0::int) \<le> 30" "(30::int) \<le> SHORT_TERM" "sorted_wrt (<) (1 # [2..30::int])"
    "length [2..30::int] < 65536"
    by (simp_all add: SHORT_TERM_def del: upto_rec_numeral)
  have l: "int (length [2..30::int]) = 29" by (simp del: upto_rec_numeral)
  obtain mk where mk: "every_cycle ''kmalloc-64'' 0 30 1 [2..30] = Inr mk"
      "increasing_stats 30 (total_of (mann_kendall 870 mk)) (tiedbucketsTotal mk)"
      "increasing_stats 30 (mid_of (mann_kendall 870 mk)) (tiedbucketsMID_TERM mk)"
      "increasing_stats 30 (short_of (mann_kendall 870 mk)) (tiedbucketsSHORT_TERM mk)"
    using strictly_increasing_bounded [OF h, of "''kmalloc-64''" 0]
    unfolding l by (auto simp: MID_TERM_def SHORT_TERM_def)
  have "S_stat (short_of (mann_kendall 870 mk)) = 435"
    "flag (short_of (mann_kendall 870 mk)) = ''YES''"
    using mk(4) by (simp_all add: increasing_stats_def)
  then show ?thesis
    using h l mk by (auto simp: SHORT_TERM_def simp del: upto_rec_numeral sorted_wrt.simps)
qed

text \<open>
  Claim C10.  At the end of every cycle that completes, whatever the time stamps and
  values of the samples, every bucket of every histogram of a cache has \<open>tied \<ge> 0\<close>.
\<close>

theorem tied_never_negative:
  assumes "feed (first_sample nm t v) samples = Inr mk"
  shows "(\<forall>b \<in> set (tiedbucketsTotal mk). 0 \<le> tied b) \<and>
         (\<forall>b \<in> set (tiedbucketsMID_TERM mk). 0 \<le> tied b) \<and>
         (\<forall>b \<in> set (tiedbucketsSHORT_TERM mk). 0 \<le> tied b)"
proof -
  have ok: "entity_ok mk"
    using feed_ok [OF first_sample_ok assms] by simp
  have "\<exists>ys. hist_ok (tiedbucketsMID_TERM mk) ys"
    using ok by (auto simp: entity_ok_def bound_ok_def split: option.splits)
  moreover have "\<exists>ys. hist_ok (tiedbucketsSHORT_TERM mk) ys"
    using ok by (auto simp: entity_ok_def bound_ok_def split: option.splits)
  moreover have "hist_ok (tiedbucketsTotal mk) (sValues mk)"
    using ok by (simp add: entity_ok_def)
  ultimately show ?thesis
    using hist_ok_nonneg by blast
qed

theorem tied_never_negative_witness:
  "feed (first_sample ''kmalloc-64'' 0 100) [(600, 200), (2400, 300)] = Inr after_gap \<and>
   \<lparr>bvalue = 100, tied = 0\<rparr> \<in> set (tiedbucketsSHORT_TERM after_gap) \<and>
   0 \<le> tied \<lparr>bvalue = 100, tied = 0\<rparr> \<and>
   list_all (\<lambda>b. 0 \<le> tied b) (tiedbucketsSHORT_TERM after_gap)"
  using tied_never_negative [OF run_gap] run_gap
  by (simp add: after_gap_def)

end
